theory Spec2Isabelle
  imports Main "HOL-Library.Multiset"
begin

chapter \<open>The program\<close>

section \<open>Data model (src/types/game.ts, src/data/levels.ts)\<close>

text \<open>
  A \<open>Position\<close> is the pair of its \<open>x\<close> and \<open>y\<close> fields. Coordinates and all
  numeric fields of a unit are integers. The fields of \<open>Unit\<close> that only the
  presentation reads (name, maxHp, sprite, sizeMultiplier) are left out; \<open>uid\<close> is the
  field \<open>id\<close>; the optional \<open>stunned\<close> flag is a boolean, an absent flag being falsy.
\<close>

type_synonym Position = "int \<times> int"

datatype Turn = TurnPlayer | TurnEnemy

datatype Team = Player | Enemy

datatype TerrainType = plains | mountain | water | forest

record Unit =
  uid :: string
  position :: Position
  hp :: int
  moveRange :: int
  attackRange :: int
  damage :: int
  team :: Team
  emoji :: string
  stunned :: bool

record LevelData =
  levelId :: int
  gridSize :: int
  units0 :: "Unit list"
  mapSetup :: "int \<Rightarrow> int \<Rightarrow> TerrainType"

text \<open>
  The two emoji literals that the board compares \<open>unit.emoji\<close> against: the bow and arrow
  (U+1F3F9) of the archers and the shield (U+1F6E1, U+FE0F) of the shieldbearers, as their
  UTF-8 bytes.
\<close>

definition ARCHER :: string where
  "ARCHER = [CHR 0xF0, CHR 0x9F, CHR 0x8F, CHR 0xB9]"

definition SHIELD :: string where
  "SHIELD = [CHR 0xF0, CHR 0x9F, CHR 0x9B, CHR 0xA1, CHR 0xEF, CHR 0xB8, CHR 0x8F]"

text \<open>
  The three entries of \<open>LEVELS\<close> (Forest Ambush, Mountain Pass, The Crossfire) with their
  rosters and their \<open>mapSetup\<close>, the tests of which are kept in the order of the source.
\<close>

definition forestAmbush :: LevelData where
  "forestAmbush = \<lparr> levelId = 1, gridSize = 10,
       units0 =
         [\<lparr> uid = ''hero'', position = (4, 9), hp = 1, moveRange = 3, attackRange = 1, damage = 5,
             team = Player, emoji = SHIELD, stunned = False \<rparr>,
          \<lparr> uid = ''skel1'', position = (1, 3), hp = 4, moveRange = 2, attackRange = 2, damage = 4,
             team = Enemy, emoji = ARCHER, stunned = False \<rparr>,
          \<lparr> uid = ''skel2'', position = (8, 3), hp = 4, moveRange = 2, attackRange = 2, damage = 4,
             team = Enemy, emoji = ARCHER, stunned = False \<rparr>,
          \<lparr> uid = ''skel3'', position = (5, 1), hp = 4, moveRange = 2, attackRange = 2, damage = 4,
             team = Enemy, emoji = ARCHER, stunned = False \<rparr>],
       mapSetup = (\<lambda>x y.
         if x = 4 \<and> y = 5 then mountain
         else if x = 5 \<and> y = 5 then mountain
         else if x = 4 \<and> y = 6 then mountain
         else if x = 5 \<and> y = 6 then mountain
         else if x = 2 \<and> y = 6 then mountain
         else if x = 2 \<and> y = 5 then forest
         else if x = 7 \<and> y = 6 then mountain
         else if x = 7 \<and> y = 5 then forest
         else if x = 1 \<and> y = 3 then forest
         else if x = 8 \<and> y = 3 then forest
         else if x = 5 \<and> y = 1 then forest
         else if y = 0 then water
         else plains) \<rparr>"

definition mountainPass :: LevelData where
  "mountainPass = \<lparr> levelId = 2, gridSize = 10,
       units0 =
         [\<lparr> uid = ''hero'', position = (4, 8), hp = 1, moveRange = 3, attackRange = 1, damage = 5,
             team = Player, emoji = SHIELD, stunned = False \<rparr>,
          \<lparr> uid = ''sb1'', position = (2, 2), hp = 50, moveRange = 2, attackRange = 1, damage = 1,
             team = Enemy, emoji = SHIELD, stunned = False \<rparr>,
          \<lparr> uid = ''sb2'', position = (7, 2), hp = 50, moveRange = 2, attackRange = 1, damage = 1,
             team = Enemy, emoji = SHIELD, stunned = False \<rparr>,
          \<lparr> uid = ''sb3'', position = (4, 6), hp = 50, moveRange = 2, attackRange = 1, damage = 1,
             team = Enemy, emoji = SHIELD, stunned = False \<rparr>,
          \<lparr> uid = ''sb4'', position = (5, 6), hp = 50, moveRange = 2, attackRange = 1, damage = 1,
             team = Enemy, emoji = SHIELD, stunned = False \<rparr>],
       mapSetup = (\<lambda>x y.
         if x = 0 \<or> x = 9 \<or> y = 0 \<or> y = 9 then water
         else if (x = 4 \<and> y = 4) \<or> (x = 5 \<and> y = 4) \<or> (x = 4 \<and> y = 5) \<or> (x = 5 \<and> y = 5)
           then mountain
         else if (x = 2 \<and> y = 3) \<or> (x = 7 \<and> y = 3) \<or> (x = 3 \<and> y = 6) \<or> (x = 6 \<and> y = 6)
           then mountain
         else if (x = 1 \<and> y = 1) \<or> (x = 8 \<and> y = 1) \<or> (x = 1 \<and> y = 8) \<or> (x = 8 \<and> y = 8)
           then mountain
         else if (x = 3 \<and> y = 3) \<or> (x = 6 \<and> y = 3) \<or> (x = 4 \<and> y = 3) \<or> (x = 5 \<and> y = 3)
                 \<or> (x = 2 \<and> y = 4) \<or> (x = 7 \<and> y = 4)
           then mountain
         else plains) \<rparr>"

definition crossfire :: LevelData where
  "crossfire = \<lparr> levelId = 3, gridSize = 11,
       units0 =
         [\<lparr> uid = ''hero'', position = (5, 9), hp = 1, moveRange = 3, attackRange = 1, damage = 5,
             team = Player, emoji = SHIELD, stunned = False \<rparr>,
          \<lparr> uid = ''archer1'', position = (2, 1), hp = 4, moveRange = 2, attackRange = 2, damage = 4,
             team = Enemy, emoji = ARCHER, stunned = False \<rparr>,
          \<lparr> uid = ''archer2'', position = (8, 1), hp = 4, moveRange = 2, attackRange = 2, damage = 4,
             team = Enemy, emoji = ARCHER, stunned = False \<rparr>,
          \<lparr> uid = ''sb1'', position = (3, 5), hp = 8, moveRange = 2, attackRange = 1, damage = 1,
             team = Enemy, emoji = SHIELD, stunned = False \<rparr>,
          \<lparr> uid = ''sb2'', position = (5, 6), hp = 8, moveRange = 2, attackRange = 1, damage = 1,
             team = Enemy, emoji = SHIELD, stunned = False \<rparr>,
          \<lparr> uid = ''sb3'', position = (7, 5), hp = 8, moveRange = 2, attackRange = 1, damage = 1,
             team = Enemy, emoji = SHIELD, stunned = False \<rparr>],
       mapSetup = (\<lambda>x y.
         if x = 0 \<or> x = 10 \<or> y = 0 \<or> y = 10 then water
         else if (x = 4 \<and> y = 4) \<or> (x = 6 \<and> y = 4) then mountain
         else if (x = 1 \<and> y = 2) \<or> (x = 9 \<and> y = 2) then mountain
         else if (x = 3 \<and> y = 7) \<or> (x = 7 \<and> y = 7) then mountain
         else if (x = 2 \<and> y = 6) \<or> (x = 8 \<and> y = 6) then mountain
         else if (x = 5 \<and> y = 7) \<or> (x = 4 \<and> y = 8) \<or> (x = 6 \<and> y = 8) then forest
         else if (x = 3 \<and> y = 6) \<or> (x = 7 \<and> y = 6) \<or> (x = 2 \<and> y = 7) \<or> (x = 8 \<and> y = 7)
           then forest
         else if (x = 3 \<and> y = 3) \<or> (x = 7 \<and> y = 3) then forest
         else if (x = 4 \<and> y = 5) \<or> (x = 6 \<and> y = 5) then forest
         else plains) \<rparr>"

definition LEVELS :: "LevelData list" where
  "LEVELS = [forestAmbush, mountainPass, crossfire]"

text \<open>A read of an undefined value's property raises a TypeError in the source.\<close>

datatype exn = TypeError

definition inBounds :: "LevelData \<Rightarrow> Position \<Rightarrow> bool" where
  "inBounds L p \<longleftrightarrow> 0 \<le> fst p \<and> fst p < gridSize L \<and> 0 \<le> snd p \<and> snd p < gridSize L"

text \<open>
  The grid state is rebuilt from \<open>level.mapSetup\<close> for the cells of
  \<open>[0, GRID_SIZE) \<times> [0, GRID_SIZE)\<close>; \<open>currentGrid[y][x].terrain\<close> is the terrain of the
  level inside the grid and raises outside of it.
\<close>

definition terrainAt :: "LevelData \<Rightarrow> int \<Rightarrow> int \<Rightarrow> exn + TerrainType" where
  "terrainAt L x y = (if inBounds L (x, y) then Inr (mapSetup L x y) else Inl TypeError)"

section \<open>Line of sight (hasLineOfSight)\<close>

text \<open>
  The \<open>while (true)\<close> loop over \<open>x0\<close>, \<open>y0\<close> and \<open>err\<close>. \<open>None\<close> is a loop that never
  returns, \<open>Some (Inl TypeError)\<close> a read outside the grid.
\<close>

partial_function (option) losLoop ::
  "LevelData \<Rightarrow> Position \<Rightarrow> Position \<Rightarrow> int \<Rightarrow> int \<Rightarrow> int \<Rightarrow> int \<Rightarrow> int \<Rightarrow> int \<Rightarrow> int
     \<Rightarrow> (exn + bool) option" where
  "losLoop L start endp dx dy sx sy x0 y0 err =
     (if x0 = fst endp \<and> y0 = snd endp then Some (Inr True)
      else if \<not> (x0 = fst start \<and> y0 = snd start) \<and> terrainAt L x0 y0 = Inl TypeError
        then Some (Inl TypeError)
      else if \<not> (x0 = fst start \<and> y0 = snd start) \<and> terrainAt L x0 y0 = Inr mountain
        then Some (Inr False)
      else losLoop L start endp dx dy sx sy
             (if 2 * err > - dy then x0 + sx else x0)
             (if 2 * err < dx then y0 + sy else y0)
             ((if 2 * err > - dy then err - dy else err) + (if 2 * err < dx then dx else 0)))"

declare losLoop.simps [code]

definition hasLineOfSight :: "LevelData \<Rightarrow> Position \<Rightarrow> Position \<Rightarrow> (exn + bool) option" where
  "hasLineOfSight L start endp =
     losLoop L start endp \<bar>fst endp - fst start\<bar> \<bar>snd endp - snd start\<bar>
       (if fst start < fst endp then 1 else - 1) (if snd start < snd endp then 1 else - 1)
       (fst start) (snd start) (\<bar>fst endp - fst start\<bar> - \<bar>snd endp - snd start\<bar>)"

section \<open>Pathfinding (getValidMoves)\<close>

text \<open>
  A queue node is a cell with its \<open>curCost\<close>. The loop keeps the dequeued nodes with their
  cost in \<open>valid\<close>; \<open>getValidMoves\<close> returns their cells, as the source pushes
  \<open>{x: current.x, y: current.y}\<close>. The visited set is the list of visited cells: the keys
  \<open>x-y\<close> of the source are distinct for distinct cells of the grid.
\<close>

type_synonym Node = "Position \<times> int"

definition neighbours :: "Position \<Rightarrow> Position list" where
  "neighbours p = [(fst p + 1, snd p), (fst p - 1, snd p), (fst p, snd p + 1), (fst p, snd p - 1)]"

definition isBlocked :: "Unit list \<Rightarrow> Position \<Rightarrow> bool" where
  "isBlocked units p \<longleftrightarrow>
     (\<exists>u\<in>set units. fst (position u) = fst p \<and> snd (position u) = snd p)"

text \<open>
  The body of the \<open>forEach\<close> over the four neighbours, on the queue and the visited set.
  \<open>pushIfAffordable\<close> is the test that the source repeats in its three branches: the
  neighbour is queued when the cost fits the movement budget and the cell is not visited.
\<close>

definition pushIfAffordable ::
  "Unit \<Rightarrow> Node \<Rightarrow> int \<Rightarrow> Position \<Rightarrow> Node list \<times> Position list \<Rightarrow> Node list \<times> Position list" where
  "pushIfAffordable unit current cost neighbor qv =
     (if snd current + cost \<le> moveRange unit then
        (if neighbor \<notin> set (snd qv)
         then (fst qv @ [(neighbor, snd current + cost)], snd qv @ [neighbor])
         else qv)
      else qv)"

definition visitNeighbor ::
  "LevelData \<Rightarrow> Unit list \<Rightarrow> Unit \<Rightarrow> bool \<Rightarrow> Node \<Rightarrow> Node list \<times> Position list \<Rightarrow> Position
     \<Rightarrow> Node list \<times> Position list" where
  "visitNeighbor L units unit startsOnForest current qv neighbor =
     (if fst neighbor < 0 \<or> fst neighbor \<ge> gridSize L \<or> snd neighbor < 0 \<or> snd neighbor \<ge> gridSize L
      then qv
      else let terrain = mapSetup L (fst neighbor) (snd neighbor) in
        if terrain = water \<or> terrain = mountain \<or> isBlocked units neighbor then qv
        else let cost = (if terrain = forest then 2 else 1) in
          if snd current = 0 \<and> startsOnForest then
            (let cost = 2 in
               if moveRange unit = 2 then pushIfAffordable unit current cost neighbor qv
               else pushIfAffordable unit current cost neighbor qv)
          else pushIfAffordable unit current cost neighbor qv)"

text \<open>
  The loop ends: every expansion takes one node from the queue, and each node it adds marks
  a cell of the grid visited that was not. The sum of the length of the queue and the number
  of unvisited cells of the grid goes down by one.
\<close>

definition cells :: "LevelData \<Rightarrow> Position set" where
  "cells L = {p. inBounds L p}"

lemma finite_cells: "finite (cells L)"
proof -
  have "cells L \<subseteq> {0..<gridSize L} \<times> {0..<gridSize L}"
    by (auto simp: cells_def inBounds_def)
  then show ?thesis by (rule finite_subset) simp
qed

definition bfsMeasure :: "LevelData \<Rightarrow> Node list \<Rightarrow> Position list \<Rightarrow> nat" where
  "bfsMeasure L queue visited = length queue + card (cells L - set visited)"

lemma visitNeighbor_cases:
  "visitNeighbor L units unit sof current qv nb = qv
   \<or> (\<exists>c. visitNeighbor L units unit sof current qv nb = (fst qv @ [(nb, c)], snd qv @ [nb])
          \<and> nb \<notin> set (snd qv) \<and> inBounds L nb)"
  by (cases qv) (auto simp: visitNeighbor_def pushIfAffordable_def Let_def inBounds_def)

lemma visitNeighbor_measure:
  "bfsMeasure L (fst (visitNeighbor L units unit sof current qv nb))
       (snd (visitNeighbor L units unit sof current qv nb))
   = bfsMeasure L (fst qv) (snd qv)"
proof -
  from visitNeighbor_cases [of L units unit sof current qv nb]
  show ?thesis
  proof (elim disjE exE conjE)
    assume "visitNeighbor L units unit sof current qv nb = qv"
    then show ?thesis by simp
  next
    fix c assume v: "visitNeighbor L units unit sof current qv nb = (fst qv @ [(nb, c)], snd qv @ [nb])"
      and n: "nb \<notin> set (snd qv)" "inBounds L nb"
    have in_rest: "nb \<in> cells L - set (snd qv)" using n by (simp add: cells_def)
    have fin: "finite (cells L - set (snd qv))" using finite_cells [of L] by simp
    have eq: "cells L - set (snd qv @ [nb]) = (cells L - set (snd qv)) - {nb}" by auto
    have "card (cells L - set (snd qv)) = Suc (card (cells L - set (snd qv @ [nb])))"
      unfolding eq using card_Suc_Diff1 [OF fin in_rest] by simp
    then show ?thesis by (simp add: v bfsMeasure_def)
  qed
qed

lemma foldl_visitNeighbor_measure:
  "bfsMeasure L (fst (foldl (visitNeighbor L units unit sof current) qv nbs))
       (snd (foldl (visitNeighbor L units unit sof current) qv nbs))
   = bfsMeasure L (fst qv) (snd qv)"
  by (induction nbs arbitrary: qv) (simp_all add: visitNeighbor_measure)

function bfs ::
  "LevelData \<Rightarrow> Unit list \<Rightarrow> Unit \<Rightarrow> bool \<Rightarrow> Node list \<Rightarrow> Position list \<Rightarrow> Node list \<Rightarrow> Node list" where
  "bfs L units unit startsOnForest [] visited valid = valid"
| "bfs L units unit startsOnForest (current # rest) visited valid =
     (let valid' = (if snd current > 0 then valid @ [current] else valid);
          qv = foldl (visitNeighbor L units unit startsOnForest current) (rest, visited)
                 (neighbours (fst current))
      in bfs L units unit startsOnForest (fst qv) (snd qv) valid')"
  by pat_completeness auto
termination
proof (relation "measure (\<lambda>(L, units, unit, sof, queue, visited, valid). bfsMeasure L queue visited)")
  show "wf (measure (\<lambda>(L, units, unit, sof, queue, visited, valid). bfsMeasure L queue visited))"
    by simp
next
  fix L units unit startsOnForest current rest visited valid valid' qv
  assume "qv = foldl (visitNeighbor L units unit startsOnForest current) (rest, visited)
                 (neighbours (fst current))"
  then have "bfsMeasure L (fst qv) (snd qv) = bfsMeasure L rest visited"
    by (simp add: foldl_visitNeighbor_measure)
  then show "((L, units, unit, startsOnForest, fst qv, snd qv, valid'),
          (L, units, unit, startsOnForest, current # rest, visited, valid))
       \<in> measure (\<lambda>(L, units, unit, sof, queue, visited, valid). bfsMeasure L queue visited)"
    by (simp add: bfsMeasure_def)
qed

text \<open>
  \<open>startsOnForest\<close> reads the grid at the unit's cell only for a unit that is not an archer;
  a stunned unit gets the empty list before anything is read.
\<close>

definition startsOnForest :: "LevelData \<Rightarrow> Unit \<Rightarrow> exn + bool" where
  "startsOnForest L unit =
     (if emoji unit \<noteq> ARCHER
      then (case terrainAt L (fst (position unit)) (snd (position unit)) of
              Inl e \<Rightarrow> Inl e
            | Inr terrain \<Rightarrow> Inr (terrain = forest))
      else Inr False)"

definition validNodes :: "LevelData \<Rightarrow> Unit list \<Rightarrow> Unit \<Rightarrow> exn + Node list" where
  "validNodes L units unit =
     (if stunned unit then Inr []
      else case startsOnForest L unit of
             Inl e \<Rightarrow> Inl e
           | Inr sof \<Rightarrow> Inr (bfs L units unit sof [(position unit, 0)] [position unit] []))"

definition getValidMoves :: "LevelData \<Rightarrow> Unit list \<Rightarrow> Unit \<Rightarrow> exn + Position list" where
  "getValidMoves L units unit =
     (case validNodes L units unit of Inl e \<Rightarrow> Inl e | Inr nodes \<Rightarrow> Inr (map fst nodes))"

section \<open>Combat resolver (executeAttack, executeShieldBash)\<close>

text \<open>
  The updater that \<open>executeShieldBash\<close> hands to \<open>setUnits\<close>, as a function of the roster
  \<open>prev\<close>. It returns the new roster and whether the updater called
  \<open>setCurrentTurn('enemy')\<close> (the stun paths). \<open>findIndex\<close> gives \<open>None\<close> for the index -1,
  \<open>splice1 i\<close> is \<open>splice(i, 1)\<close>, and \<open>alive\<close> is the closing \<open>filter(u => u.hp > 0)\<close>. The
  branches of the updater are named: \<open>resolveCollision\<close> is the branch of a found
  \<open>collisionPoint\<close>, \<open>resolveUnitCollision\<close> its branch of a found \<open>hitUnitIndex\<close>, and
  \<open>resolveFreePath\<close> the branch without a collision.
\<close>

fun findIndex :: "('a \<Rightarrow> bool) \<Rightarrow> 'a list \<Rightarrow> nat option" where
  "findIndex P [] = None"
| "findIndex P (x # xs) = (if P x then Some 0 else map_option Suc (findIndex P xs))"

definition splice1 :: "nat \<Rightarrow> 'a list \<Rightarrow> 'a list" where
  "splice1 i xs = take i xs @ drop (Suc i) xs"

definition alive :: "Unit list \<Rightarrow> Unit list" where
  "alive us = filter (\<lambda>u. hp u > 0) us"

definition executeAttack :: "Unit \<Rightarrow> Unit \<Rightarrow> Unit list \<Rightarrow> Unit list" where
  "executeAttack attacker target prev =
     (let dmg = damage attacker
      in filter (\<lambda>u. hp u > 0) (map (\<lambda>u. if uid u = uid target then u\<lparr>hp := hp u - dmg\<rparr> else u) prev))"

definition getKnockbackPath :: "Position \<Rightarrow> Position \<Rightarrow> Position list" where
  "getKnockbackPath start endp =
     (let dx = sgn (fst endp - fst start); dy = sgn (snd endp - snd start)
      in map (\<lambda>i. (fst start + dx * i, snd start + dy * i)) [1, 2])"

definition getPositionBeforeCollision :: "Position \<Rightarrow> Position \<Rightarrow> int \<Rightarrow> int \<Rightarrow> Position" where
  "getPositionBeforeCollision start collisionPoint dx dy = (fst collisionPoint - dx, snd collisionPoint - dy)"

definition pushPosOf :: "Unit \<Rightarrow> Unit \<Rightarrow> Position" where
  "pushPosOf attacker target =
     (let dx = fst (position target) - fst (position attacker);
          dy = snd (position target) - snd (position attacker)
      in (fst (position target) + dx * 2, snd (position target) + dy * 2))"

definition isOutOfBounds :: "LevelData \<Rightarrow> Position \<Rightarrow> bool" where
  "isOutOfBounds L p \<longleftrightarrow> fst p < 0 \<or> fst p \<ge> gridSize L \<or> snd p < 0 \<or> snd p \<ge> gridSize L"

definition collides :: "LevelData \<Rightarrow> Unit list \<Rightarrow> Unit \<Rightarrow> Position \<Rightarrow> bool" where
  "collides L updatedUnits target pos \<longleftrightarrow>
     (let unitCollision = (\<exists>u\<in>set updatedUnits. uid u \<noteq> uid target
                              \<and> fst (position u) = fst pos \<and> snd (position u) = snd pos);
          terrainCollision = (mapSetup L (fst pos) (snd pos) = mountain)
      in unitCollision \<or> terrainCollision)"

definition collisionPointOf :: "LevelData \<Rightarrow> Unit list \<Rightarrow> Unit \<Rightarrow> Position \<Rightarrow> Position option" where
  "collisionPointOf L updatedUnits target pushPos =
     find (collides L updatedUnits target) (getKnockbackPath (position target) pushPos)"

definition hitUnitIndexOf :: "Unit list \<Rightarrow> Unit \<Rightarrow> Position \<Rightarrow> nat option" where
  "hitUnitIndexOf updatedUnits target collisionPoint =
     findIndex (\<lambda>u. fst (position u) = fst collisionPoint \<and> snd (position u) = snd collisionPoint
                     \<and> uid u \<noteq> uid target) updatedUnits"

definition resolveUnitCollision ::
  "LevelData \<Rightarrow> Unit \<Rightarrow> Unit list \<Rightarrow> nat \<Rightarrow> Unit \<Rightarrow> Position \<Rightarrow> int \<Rightarrow> int \<Rightarrow> nat
     \<Rightarrow> Unit list \<times> bool" where
  "resolveUnitCollision L target updatedUnits targetIndex targetUnit collisionPoint dx dy hitUnitIndex =
     (let hitUnit = updatedUnits ! hitUnitIndex in
      if emoji target = SHIELD \<and> emoji hitUnit = ARCHER then
        (splice1 hitUnitIndex
           (updatedUnits[targetIndex := targetUnit\<lparr>hp := hp targetUnit - 1,
              position := position hitUnit, stunned := True\<rparr>]), True)
      else if emoji hitUnit = SHIELD \<and> emoji target = ARCHER then
        (splice1 hitUnitIndex
           (updatedUnits[targetIndex := targetUnit\<lparr>hp := hp targetUnit - 1,
              position := position hitUnit, stunned := True\<rparr>]), True)
      else
        (let hitUnitKnockbackPos = (fst collisionPoint + dx * 2, snd collisionPoint + dy * 2);
             isHitUnitOutOfBounds = isOutOfBounds L hitUnitKnockbackPos;
             isHitUnitWater = (\<not> isHitUnitOutOfBounds
                \<and> mapSetup L (fst hitUnitKnockbackPos) (snd hitUnitKnockbackPos) = water);
             swapped = updatedUnits[targetIndex := targetUnit\<lparr>hp := hp targetUnit - 1,
                position := position hitUnit, stunned := True\<rparr>]
         in if isHitUnitOutOfBounds \<or> isHitUnitWater
            then (splice1 hitUnitIndex swapped, True)
            else (swapped[hitUnitIndex := hitUnit\<lparr>hp := hp hitUnit - 1,
                    position := hitUnitKnockbackPos\<rparr>], True)))"

definition resolveCollision ::
  "LevelData \<Rightarrow> Unit \<Rightarrow> Unit list \<Rightarrow> nat \<Rightarrow> Unit \<Rightarrow> Position \<Rightarrow> int \<Rightarrow> int \<Rightarrow> Unit list \<times> bool" where
  "resolveCollision L target updatedUnits targetIndex targetUnit collisionPoint dx dy =
     (let stopPosition = getPositionBeforeCollision (position target) collisionPoint dx dy;
          isMountainCollision = (mapSetup L (fst collisionPoint) (snd collisionPoint) = mountain)
      in if isMountainCollision
         then (updatedUnits[targetIndex := targetUnit\<lparr>hp := hp targetUnit - 1,
                  position := collisionPoint, stunned := True\<rparr>], True)
         else (case hitUnitIndexOf updatedUnits target collisionPoint of
                 Some hitUnitIndex \<Rightarrow>
                   resolveUnitCollision L target updatedUnits targetIndex targetUnit collisionPoint
                     dx dy hitUnitIndex
               | None \<Rightarrow>
                   (updatedUnits[targetIndex := targetUnit\<lparr>hp := hp targetUnit - 1,
                      position := stopPosition\<rparr>], False)))"

definition resolveFreePath ::
  "LevelData \<Rightarrow> Unit list \<Rightarrow> nat \<Rightarrow> Unit \<Rightarrow> Position \<Rightarrow> Unit list \<times> bool" where
  "resolveFreePath L updatedUnits targetIndex targetUnit pushPos =
     (let terrain = mapSetup L (fst pushPos) (snd pushPos)
      in if terrain = water then (splice1 targetIndex updatedUnits, False)
         else if terrain = mountain
         then (updatedUnits[targetIndex := targetUnit\<lparr>hp := hp targetUnit - 1,
                  position := pushPos, stunned := True\<rparr>], True)
         else (updatedUnits[targetIndex := targetUnit\<lparr>hp := hp targetUnit - 1,
                  position := pushPos\<rparr>], False))"

definition executeShieldBash :: "LevelData \<Rightarrow> Unit \<Rightarrow> Unit \<Rightarrow> Unit list \<Rightarrow> Unit list \<times> bool" where
  "executeShieldBash L attacker target prev =
     (let dx = fst (position target) - fst (position attacker);
          dy = snd (position target) - snd (position attacker);
          pushPos = pushPosOf attacker target;
          updatedUnits = prev
      in case findIndex (\<lambda>u. uid u = uid target) updatedUnits of
           None \<Rightarrow> (alive updatedUnits, False)
         | Some targetIndex \<Rightarrow>
             (let targetUnit = updatedUnits ! targetIndex in
              if hp targetUnit \<le> 0 then (alive updatedUnits, False)
              else if isOutOfBounds L pushPos then (alive (splice1 targetIndex updatedUnits), False)
              else (case collisionPointOf L updatedUnits target pushPos of
                      Some collisionPoint \<Rightarrow>
                        (let r = resolveCollision L target updatedUnits targetIndex targetUnit
                                   collisionPoint dx dy
                         in (alive (fst r), snd r))
                    | None \<Rightarrow>
                        (let r = resolveFreePath L updatedUnits targetIndex targetUnit pushPos
                         in (alive (fst r), snd r)))))"

section \<open>Turn controller (handleTileClick, enemy phase)\<close>

text \<open>
  A computation of the board either does not return (\<open>None\<close>), raises (\<open>Some (Inl e)\<close>) or
  returns a value (\<open>Some (Inr v)\<close>); \<open>bindC\<close> sequences two of them and \<open>foldC\<close> is a
  \<open>forEach\<close> that threads the variables its body assigns.
\<close>

type_synonym 'a comp = "(exn + 'a) option"

definition returnC :: "'a \<Rightarrow> 'a comp" where
  "returnC a = Some (Inr a)"

definition bindC :: "'a comp \<Rightarrow> ('a \<Rightarrow> 'b comp) \<Rightarrow> 'b comp" where
  "bindC m f = (case m of None \<Rightarrow> None | Some (Inl e) \<Rightarrow> Some (Inl e) | Some (Inr a) \<Rightarrow> f a)"

fun foldC :: "('s \<Rightarrow> 'a \<Rightarrow> 's comp) \<Rightarrow> 's \<Rightarrow> 'a list \<Rightarrow> 's comp" where
  "foldC f s [] = returnC s"
| "foldC f s (x # xs) = bindC (f s x) (\<lambda>s'. foldC f s' xs)"

definition manhattan :: "Position \<Rightarrow> Position \<Rightarrow> int" where
  "manhattan a b = \<bar>fst a - fst b\<bar> + \<bar>snd a - snd b\<bar>"

definition getValidTargets :: "LevelData \<Rightarrow> Unit \<Rightarrow> Unit list \<Rightarrow> Position list comp" where
  "getValidTargets L attacker allUnits =
     foldC (\<lambda>targets target.
        if team target = team attacker then returnC targets
        else let dist = manhattan (position attacker) (position target) in
          if dist \<le> attackRange attacker
          then bindC (hasLineOfSight L (position attacker) (position target))
                 (\<lambda>los. returnC (if los then targets @ [position target] else targets))
          else returnC targets) [] allUnits"

text \<open>
  The state of the board component that the combat logic reads and writes. The grid state
  is the terrain of the level with the unit of each cell, so \<open>tile.unit\<close> is the first unit
  of the roster on the clicked cell. A click handler is modelled with its timers run to
  completion: the attack branch applies the updater of the chosen action and then the
  delayed reset that hands the turn to the enemy. \<open>checkOutcome\<close> and \<open>clearStun\<close> are the
  two effects on the roster and the turn, \<open>enemyPhase\<close> is the callback of the enemy effect
  and \<open>enemyTurn\<close> that callback under the guard of its effect.
\<close>

datatype Action = ActAttack | ActShieldBash

datatype Outcome = playing | won | lost

record Session =
  units :: "Unit list"
  selectedUnitId :: "string option"
  validMoves :: "Position list"
  currentTurn :: Turn
  hasMoved :: bool
  validTargets :: "Position list"
  selectedAction :: Action
  gameState :: Outcome

definition defaultAction :: "LevelData \<Rightarrow> Action" where
  "defaultAction L = (if levelId L = 2 then ActShieldBash else ActAttack)"

definition initialSession :: "LevelData \<Rightarrow> Session" where
  "initialSession L = \<lparr> units = units0 L, selectedUnitId = None, validMoves = [],
       currentTurn = TurnPlayer, hasMoved = False, validTargets = [],
       selectedAction = defaultAction L, gameState = playing \<rparr>"

definition checkOutcome :: "Session \<Rightarrow> Session" where
  "checkOutcome s =
     (if gameState s \<noteq> playing then s
      else let playerUnit = find (\<lambda>u. team u = Player) (units s);
               enemies = filter (\<lambda>u. team u = Enemy) (units s)
           in if playerUnit = None then s\<lparr>gameState := lost\<rparr>
              else if length enemies = 0 then s\<lparr>gameState := won\<rparr>
              else s)"

definition clearStun :: "Session \<Rightarrow> Session" where
  "clearStun s =
     (if currentTurn s = TurnPlayer \<and> gameState s = playing
      then s\<lparr>units := map (\<lambda>u. u\<lparr>stunned := False\<rparr>) (units s)\<rparr>
      else s)"

definition tileUnit :: "Session \<Rightarrow> Position \<Rightarrow> Unit option" where
  "tileUnit s p = find (\<lambda>u. fst (position u) = fst p \<and> snd (position u) = snd p) (units s)"

definition hasPos :: "Position list \<Rightarrow> Position \<Rightarrow> bool" where
  "hasPos ps p \<longleftrightarrow> (\<exists>t\<in>set ps. fst t = fst p \<and> snd t = snd p)"

text \<open>
  The three branches of \<open>handleTileClick\<close>: the attack on a valid target after the move,
  the move to a valid cell, and the selection of a unit. A move whose unit is not found
  calls \<open>getValidTargets\<close> with an undefined attacker, which raises on the first unit it
  compares with.
\<close>

definition resolveAttackClick :: "LevelData \<Rightarrow> Session \<Rightarrow> Unit \<Rightarrow> Unit \<Rightarrow> Session" where
  "resolveAttackClick L s selectedUnit targetUnit =
     (let newUnits = (if selectedAction s = ActShieldBash
                      then fst (executeShieldBash L selectedUnit targetUnit (units s))
                      else executeAttack selectedUnit targetUnit (units s))
      in s\<lparr>units := newUnits, hasMoved := False, validTargets := [], selectedUnitId := None,
           selectedAction := defaultAction L, currentTurn := TurnEnemy\<rparr>)"

definition moveClick :: "LevelData \<Rightarrow> Session \<Rightarrow> string \<Rightarrow> Position \<Rightarrow> Session comp" where
  "moveClick L s selId p =
     (let newUnits = map (\<lambda>u. if uid u = selId then u\<lparr>position := p\<rparr> else u) (units s)
      in case find (\<lambda>u. uid u = selId) newUnits of
           None \<Rightarrow> (if newUnits = [] then returnC (s\<lparr>units := newUnits, validMoves := [],
                                          selectedUnitId := None, currentTurn := TurnEnemy\<rparr>)
                     else Some (Inl TypeError))
         | Some movedUnit \<Rightarrow>
             bindC (getValidTargets L movedUnit newUnits)
               (\<lambda>targets.
                  if length targets > 0
                  then returnC (s\<lparr>units := newUnits, validMoves := [], hasMoved := True,
                                  validTargets := targets\<rparr>)
                  else returnC (s\<lparr>units := newUnits, validMoves := [], selectedUnitId := None,
                                  currentTurn := TurnEnemy\<rparr>)))"

definition selectClick :: "LevelData \<Rightarrow> Session \<Rightarrow> Position \<Rightarrow> Session comp" where
  "selectClick L s p =
     (case tileUnit s p of
        Some tu \<Rightarrow>
          (if \<not> hasMoved s \<and> team tu = Player then
             (if stunned tu then returnC (s\<lparr>selectedUnitId := None, validMoves := []\<rparr>)
              else (case getValidMoves L (units s) tu of
                      Inl e \<Rightarrow> Some (Inl e)
                    | Inr moves \<Rightarrow> returnC (s\<lparr>selectedUnitId := Some (uid tu), validMoves := moves\<rparr>)))
           else if \<not> hasMoved s then returnC (s\<lparr>selectedUnitId := None, validMoves := []\<rparr>)
           else returnC s)
      | None \<Rightarrow>
          (if \<not> hasMoved s then returnC (s\<lparr>selectedUnitId := None, validMoves := []\<rparr>)
           else returnC s))"

definition attackClick :: "LevelData \<Rightarrow> Session \<Rightarrow> Unit \<Rightarrow> Position \<Rightarrow> Session" where
  "attackClick L s selectedUnit p =
     (let isTarget = hasPos (validTargets s) p; targetUnit = tileUnit s p
      in case targetUnit of
           Some tu \<Rightarrow> if isTarget \<and> team tu = Enemy then resolveAttackClick L s selectedUnit tu else s
         | None \<Rightarrow> s)"

definition moveOrSelectClick :: "LevelData \<Rightarrow> Session \<Rightarrow> Position \<Rightarrow> Session comp" where
  "moveOrSelectClick L s p =
     (case selectedUnitId s of
        Some i \<Rightarrow> if i \<noteq> [] \<and> \<not> hasMoved s \<and> hasPos (validMoves s) p
                  then moveClick L s i p else selectClick L s p
      | None \<Rightarrow> selectClick L s p)"

definition handleTileClick :: "LevelData \<Rightarrow> Session \<Rightarrow> Position \<Rightarrow> Session comp" where
  "handleTileClick L s p =
     (if currentTurn s \<noteq> TurnPlayer then returnC s
      else let selectedUnit = (case selectedUnitId s of
                                 None \<Rightarrow> None
                               | Some i \<Rightarrow> find (\<lambda>u. uid u = i) (units s))
        in case selectedUnit of
             Some su \<Rightarrow> if hasMoved s then returnC (attackClick L s su p)
                        else moveOrSelectClick L s p
           | None \<Rightarrow> moveOrSelectClick L s p)"

text \<open>
  The enemy phase. \<open>chooseMove\<close> is the loop over the valid moves that keeps \<open>bestMove\<close>
  and \<open>minDistance\<close>, the latter \<open>None\<close> while it is \<open>Infinity\<close>. \<open>enemyMove\<close> and
  \<open>enemyAttack\<close> are the bodies of the two \<open>forEach\<close> loops over the sorted enemies; the
  first threads \<open>newUnits\<close>, the second \<open>playerHp\<close>. The valid moves of an enemy are computed
  against the roster of the state, the blocking test of \<open>chooseMove\<close> against \<open>newUnits\<close>.
  The sort of the source is stable, as \<open>sort_key\<close> is.
\<close>

definition chooseMove :: "Unit list \<Rightarrow> Unit \<Rightarrow> Unit \<Rightarrow> Position list \<Rightarrow> Position" where
  "chooseMove newUnits enemy player moves =
     fst (foldl (\<lambda>bm pos.
            let isBlocked = (\<exists>u\<in>set newUnits. fst (position u) = fst pos \<and> snd (position u) = snd pos
                                \<and> uid u \<noteq> uid enemy)
            in if isBlocked then bm
               else let dist = manhattan pos (position player);
                        diff = \<bar>dist - attackRange enemy\<bar>
                    in if (case snd bm of None \<Rightarrow> True | Some minDistance \<Rightarrow> diff < minDistance)
                       then (pos, Some diff) else bm)
          (position enemy, None) moves)"

definition enemyMove :: "LevelData \<Rightarrow> Unit list \<Rightarrow> Unit \<Rightarrow> Unit list \<Rightarrow> Unit \<Rightarrow> Unit list comp" where
  "enemyMove L stateUnits player newUnits enemy =
     (if stunned enemy then returnC newUnits
      else let distToPlayer = manhattan (position enemy) (position player) in
        bindC (if distToPlayer > attackRange enemy then returnC True
               else bindC (hasLineOfSight L (position enemy) (position player))
                      (\<lambda>los. returnC (\<not> los)))
          (\<lambda>mustMove.
             if mustMove then
               (case getValidMoves L stateUnits enemy of
                  Inl e \<Rightarrow> Some (Inl e)
                | Inr moves \<Rightarrow>
                    (let bestMove = chooseMove newUnits enemy player moves
                     in returnC (map (\<lambda>u. if uid u = uid enemy then u\<lparr>position := bestMove\<rparr> else u)
                                   newUnits)))
             else returnC newUnits))"

definition enemyAttack :: "LevelData \<Rightarrow> Unit \<Rightarrow> Unit list \<Rightarrow> int \<Rightarrow> Unit \<Rightarrow> int comp" where
  "enemyAttack L player newUnits playerHp enemy =
     (if stunned enemy then returnC playerHp
      else case find (\<lambda>u. uid u = uid enemy) newUnits of
             None \<Rightarrow> Some (Inl TypeError)
           | Some updated \<Rightarrow>
               (let dist = manhattan (position updated) (position player) in
                if dist \<le> attackRange updated
                then bindC (hasLineOfSight L (position updated) (position player))
                       (\<lambda>los. returnC (if los then playerHp - damage updated else playerHp))
                else returnC playerHp))"

definition enemyPhase :: "LevelData \<Rightarrow> Session \<Rightarrow> Session comp" where
  "enemyPhase L s =
     (let enemies = filter (\<lambda>u. team u = Enemy) (units s);
          player = find (\<lambda>u. team u = Player) (units s)
      in case player of
           Some pl \<Rightarrow>
             if length enemies > 0 then
               (let sorted = sort_key (\<lambda>e. manhattan (position e) (position pl)) enemies in
                bindC (foldC (enemyMove L (units s) pl) (units s) sorted) (\<lambda>newUnits.
                bindC (foldC (enemyAttack L pl newUnits) (hp pl) sorted) (\<lambda>playerHp.
                  returnC (s\<lparr>units := filter (\<lambda>u. hp u > 0)
                                 (map (\<lambda>u. if team u = Player then u\<lparr>hp := playerHp\<rparr> else u) newUnits),
                             currentTurn := TurnPlayer\<rparr>))))
             else returnC (s\<lparr>currentTurn := TurnPlayer\<rparr>)
         | None \<Rightarrow> returnC (s\<lparr>currentTurn := TurnPlayer\<rparr>))"

definition enemyTurn :: "LevelData \<Rightarrow> Session \<Rightarrow> Session comp" where
  "enemyTurn L s =
     (if currentTurn s = TurnEnemy \<and> gameState s = playing then enemyPhase L s else returnC s)"

chapter \<open>Vocabulary of the properties\<close>

section \<open>Line of sight (hasLineOfSight)\<close>

text \<open>
  Two cells are on a straight line when they share a row, a column or an exact diagonal;
  \<open>clearBetween\<close> says that no cell strictly between them on that line is a mountain.
\<close>

definition straight :: "Position \<Rightarrow> Position \<Rightarrow> bool" where
  "straight a b \<longleftrightarrow> fst a = fst b \<or> snd a = snd b \<or> \<bar>fst b - fst a\<bar> = \<bar>snd b - snd a\<bar>"

definition clearBetween :: "LevelData \<Rightarrow> Position \<Rightarrow> Position \<Rightarrow> bool" where
  "clearBetween L a b \<longleftrightarrow>
     (\<forall>j\<in>{1..<nat (max \<bar>fst b - fst a\<bar> \<bar>snd b - snd a\<bar>)}.
        mapSetup L (fst a + int j * sgn (fst b - fst a)) (snd a + int j * sgn (snd b - snd a)) \<noteq> mountain)"

section \<open>Pathfinding (getValidMoves)\<close>

text \<open>
  A cell can be entered when it lies inside the grid, is neither water nor mountain and
  holds no unit of the roster; entering it costs 2 for a forest and 1 otherwise.
  \<open>reach L us start p k\<close> says that a walk over enterable cells leads from \<open>start\<close> to \<open>p\<close>,
  each step to one of the four neighbours, with entry costs that add up to \<open>k\<close>.
  \<open>goodNode\<close> is what the loop keeps true of every node it has queued, and \<open>queueNode\<close>
  adds the start node. \<open>stepCost\<close> is the cost the loop charges for a step from \<open>current\<close>,
  \<open>firstStepCost\<close> that cost for a step from the start node.
\<close>

definition enterable :: "LevelData \<Rightarrow> Unit list \<Rightarrow> Position \<Rightarrow> bool" where
  "enterable L us p \<longleftrightarrow>
     inBounds L p \<and> mapSetup L (fst p) (snd p) \<noteq> water \<and> mapSetup L (fst p) (snd p) \<noteq> mountain
     \<and> \<not> isBlocked us p"

definition entryCost :: "LevelData \<Rightarrow> Position \<Rightarrow> int" where
  "entryCost L p = (if mapSetup L (fst p) (snd p) = forest then 2 else 1)"

inductive reach :: "LevelData \<Rightarrow> Unit list \<Rightarrow> Position \<Rightarrow> Position \<Rightarrow> int \<Rightarrow> bool"
  for L us start where
  reach_start: "reach L us start start 0"
| reach_step: "reach L us start p k \<Longrightarrow> q \<in> set (neighbours p) \<Longrightarrow> enterable L us q
     \<Longrightarrow> reach L us start q (k + entryCost L q)"

code_pred reach .

definition goodNode :: "LevelData \<Rightarrow> Unit list \<Rightarrow> Unit \<Rightarrow> Node \<Rightarrow> bool" where
  "goodNode L us unit n \<longleftrightarrow>
     enterable L us (fst n) \<and> fst n \<noteq> position unit \<and> 0 < snd n \<and> snd n \<le> moveRange unit
     \<and> (\<exists>k\<le>snd n. reach L us (position unit) (fst n) k)"

definition queueNode :: "LevelData \<Rightarrow> Unit list \<Rightarrow> Unit \<Rightarrow> Node \<Rightarrow> bool" where
  "queueNode L us unit n \<longleftrightarrow> n = (position unit, 0) \<or> goodNode L us unit n"

definition stepCost :: "LevelData \<Rightarrow> bool \<Rightarrow> Node \<Rightarrow> Position \<Rightarrow> int" where
  "stepCost L sof current nb = (if snd current = 0 \<and> sof then 2 else entryCost L nb)"

definition firstStepCost :: "LevelData \<Rightarrow> bool \<Rightarrow> Position \<Rightarrow> int" where
  "firstStepCost L sof p = (if sof then 2 else entryCost L p)"

section \<open>Turn controller (handleTileClick, enemy phase)\<close>

text \<open>
  A unit is on the board when its cell lies inside the grid and is not water, and off the
  mountains when its cell is not a mountain; a roster is at rest when every unit is both.
  A rest cell is a cell of the grid that is neither water nor mountain. \<open>sessionOk\<close> is the
  invariant of the session: the roster is on the board, the cached valid moves are rest
  cells, and valid moves are only cached for a selected unit of the roster that has not
  moved, during the player's turn.
\<close>

definition onBoard :: "LevelData \<Rightarrow> Unit \<Rightarrow> bool" where
  "onBoard L u \<longleftrightarrow> inBounds L (position u)
     \<and> mapSetup L (fst (position u)) (snd (position u)) \<noteq> water"

definition offMountain :: "LevelData \<Rightarrow> Unit \<Rightarrow> bool" where
  "offMountain L u \<longleftrightarrow> mapSetup L (fst (position u)) (snd (position u)) \<noteq> mountain"

definition rosterOnBoard :: "LevelData \<Rightarrow> Unit list \<Rightarrow> bool" where
  "rosterOnBoard L us \<longleftrightarrow> (\<forall>u\<in>set us. onBoard L u)"

definition rosterAtRest :: "LevelData \<Rightarrow> Unit list \<Rightarrow> bool" where
  "rosterAtRest L us \<longleftrightarrow> (\<forall>u\<in>set us. onBoard L u \<and> offMountain L u)"

definition restCell :: "LevelData \<Rightarrow> Position \<Rightarrow> bool" where
  "restCell L c \<longleftrightarrow> inBounds L c \<and> mapSetup L (fst c) (snd c) \<noteq> water
     \<and> mapSetup L (fst c) (snd c) \<noteq> mountain"

definition sessionOk :: "LevelData \<Rightarrow> Session \<Rightarrow> bool" where
  "sessionOk L s \<longleftrightarrow>
     rosterOnBoard L (units s)
     \<and> (\<forall>c\<in>set (validMoves s). restCell L c)
     \<and> (validMoves s \<noteq> [] \<longrightarrow>
          \<not> hasMoved s \<and> currentTurn s = TurnPlayer
          \<and> (\<exists>u\<in>set (units s). selectedUnitId s = Some (uid u)))"

text \<open>
  \<open>keepsOffMountain L before after\<close>: the step from the roster \<open>before\<close> to the roster
  \<open>after\<close> has put no unit on a mountain. Every unit of \<open>after\<close> that stands on a mountain
  cell has the id and the cell of a unit of \<open>before\<close>.
\<close>

definition keepsOffMountain :: "LevelData \<Rightarrow> Unit list \<Rightarrow> Unit list \<Rightarrow> bool" where
  "keepsOffMountain L before after \<longleftrightarrow>
     (\<forall>u\<in>set after. offMountain L u
        \<or> (\<exists>v\<in>set before. uid v = uid u \<and> position v = position u))"

text \<open>
  \<open>hasTeam t us\<close>: the roster holds a unit of the team \<open>t\<close>. A session is \<open>idle\<close> when no unit
  is selected, no valid move is cached and the move of the turn has not been made.

  \<open>reachable L s\<close>: the session \<open>s\<close> arises on the board of the level \<open>L\<close>. The board is
  loaded with \<open>initialSession L\<close>. The outcome check and the stun clearing are effects and may
  run at any time. A tile click and the trigger of the enemy phase are handled on a session
  on which the outcome check has run, as effects run after every render and before the next
  handler or timer, and they lead to the session they return. The two buttons of the skill
  bar set the selected action.

  \<open>sessionInv\<close> is what every reachable session of a level with an enemy and units of
  positive HP keeps true: all units have HP left; after the move of the turn no valid move
  is cached; the session is idle during the enemy's turn and whenever no player unit is
  left; and during the player's turn there is an enemy while the outcome is \<open>playing\<close>, and
  no player unit once it is not.
\<close>

definition hasTeam :: "Team \<Rightarrow> Unit list \<Rightarrow> bool" where
  "hasTeam t us \<longleftrightarrow> (\<exists>u\<in>set us. team u = t)"

definition idle :: "Session \<Rightarrow> bool" where
  "idle s \<longleftrightarrow> selectedUnitId s = None \<and> validMoves s = [] \<and> \<not> hasMoved s"

inductive reachable :: "LevelData \<Rightarrow> Session \<Rightarrow> bool" for L where
  loaded: "reachable L (initialSession L)"
| outcome: "reachable L s \<Longrightarrow> reachable L (checkOutcome s)"
| stun: "reachable L s \<Longrightarrow> reachable L (clearStun s)"
| click: "reachable L s \<Longrightarrow> checkOutcome s = s \<Longrightarrow> handleTileClick L s p = Some (Inr s')
     \<Longrightarrow> reachable L s'"
| enemy: "reachable L s \<Longrightarrow> checkOutcome s = s \<Longrightarrow> enemyTurn L s = Some (Inr s')
     \<Longrightarrow> reachable L s'"
| action: "reachable L s \<Longrightarrow> reachable L (s\<lparr>selectedAction := a\<rparr>)"

code_pred reachable .

definition sessionInv :: "Session \<Rightarrow> bool" where
  "sessionInv s \<longleftrightarrow>
     (\<forall>u\<in>set (units s). 0 < hp u)
     \<and> (hasMoved s \<longrightarrow> validMoves s = [])
     \<and> (currentTurn s = TurnEnemy \<or> \<not> hasTeam Player (units s) \<longrightarrow> idle s)
     \<and> (currentTurn s = TurnPlayer \<longrightarrow>
          (if gameState s = playing then hasTeam Enemy (units s)
           else \<not> hasTeam Player (units s)))"

text \<open>
  \<open>canHit L player u\<close>: the unit \<open>u\<close> stands within its attack range of the player with line
  of sight. \<open>updatedOf newUnits order\<close> lists, for the non-stunned units of \<open>order\<close> in that
  order, the unit of \<open>newUnits\<close> with the same id.
\<close>

definition canHit :: "LevelData \<Rightarrow> Unit \<Rightarrow> Unit \<Rightarrow> bool" where
  "canHit L player u \<longleftrightarrow>
     manhattan (position u) (position player) \<le> attackRange u
     \<and> hasLineOfSight L (position u) (position player) = Some (Inr True)"

definition updatedOf :: "Unit list \<Rightarrow> Unit list \<Rightarrow> Unit list" where
  "updatedOf newUnits order =
     List.map_filter (\<lambda>e. if stunned e then None else find (\<lambda>u. uid u = uid e) newUnits) order"

chapter \<open>Example levels and rosters\<close>

section \<open>Line of sight (hasLineOfSight)\<close>

definition levelTie :: LevelData where
  "levelTie = \<lparr> levelId = 0, gridSize = 3, units0 = [],
       mapSetup = (\<lambda>x y. if x = 1 \<and> y = 0 then mountain else plains) \<rparr>"

section \<open>Pathfinding (getValidMoves)\<close>

definition levelForest :: LevelData where
  "levelForest = \<lparr> levelId = 0, gridSize = 4, units0 = [],
       mapSetup = (\<lambda>x y. if x = 1 \<and> y = 1 then forest
                          else if y = 0 then water
                          else if x = 3 \<and> y = 3 then mountain else plains) \<rparr>"

definition heroF :: Unit where
  "heroF = \<lparr> uid = ''hero'', position = (1, 1), hp = 1, moveRange = 3, attackRange = 1, damage = 5,
            team = Player, emoji = SHIELD, stunned = False \<rparr>"

definition archerF :: Unit where
  "archerF = \<lparr> uid = ''skel1'', position = (1, 1), hp = 4, moveRange = 2, attackRange = 2, damage = 4,
            team = Enemy, emoji = ARCHER, stunned = False \<rparr>"

definition guardF :: Unit where
  "guardF = \<lparr> uid = ''guard'', position = (1, 2), hp = 8, moveRange = 2, attackRange = 1, damage = 1,
            team = Enemy, emoji = SHIELD, stunned = False \<rparr>"

section \<open>Combat resolver (executeAttack, executeShieldBash)\<close>

definition mkUnit :: "string \<Rightarrow> Position \<Rightarrow> int \<Rightarrow> Team \<Rightarrow> string \<Rightarrow> Unit" where
  "mkUnit i p h t e = \<lparr> uid = i, position = p, hp = h, moveRange = 2, attackRange = 1, damage = 1,
            team = t, emoji = e, stunned = False \<rparr>"

definition levelPass :: LevelData where
  "levelPass = \<lparr> levelId = 2, gridSize = 10, units0 = [],
       mapSetup = (\<lambda>x y. if x = 0 \<or> x = 9 \<or> y = 0 \<or> y = 9 then water
                          else if x = 4 \<and> y = 4 then mountain else plains) \<rparr>"

definition knight :: Unit where
  "knight = mkUnit ''hero'' (2, 2) 1 Player SHIELD"

definition bearer :: Unit where
  "bearer = mkUnit ''shield1'' (3, 2) 8 Enemy SHIELD"

definition bowman :: Unit where
  "bowman = mkUnit ''skel1'' (4, 2) 4 Enemy ARCHER"



definition guard2 :: Unit where
  "guard2 = mkUnit ''shield2'' (4, 2) 8 Enemy SHIELD"

definition guard3 :: Unit where
  "guard3 = mkUnit ''shield3'' (6, 2) 8 Enemy SHIELD"

definition squire :: Unit where
  "squire = mkUnit ''hero'' (2, 4) 1 Player SHIELD"

definition brute :: Unit where
  "brute = mkUnit ''shield1'' (3, 4) 8 Enemy SHIELD"

definition bowmanCrag :: Unit where
  "bowmanCrag = mkUnit ''skel1'' (4, 4) 4 Enemy ARCHER"

definition guardCrag :: Unit where
  "guardCrag = mkUnit ''shield2'' (4, 4) 8 Enemy SHIELD"








section \<open>Turn controller (handleTileClick, enemy phase)\<close>

definition sessionPass :: Session where
  "sessionPass = \<lparr> units = [squire, brute], selectedUnitId = Some ''hero'', validMoves = [],
       currentTurn = TurnPlayer, hasMoved = True, validTargets = [(3, 4)],
       selectedAction = ActShieldBash, gameState = playing \<rparr>"

definition sessionStack :: Session where
  "sessionStack = \<lparr> units = [knight, bearer, guard2, guard3], selectedUnitId = Some ''hero'',
       validMoves = [], currentTurn = TurnPlayer, hasMoved = True, validTargets = [(3, 2)],
       selectedAction = ActShieldBash, gameState = playing \<rparr>"

definition sessionCrag :: Session where
  "sessionCrag = \<lparr> units = [squire, brute\<lparr>hp := 7, position := (4, 4), stunned := True\<rparr>],
       selectedUnitId = None, validMoves = [],
       currentTurn = TurnEnemy, hasMoved = False, validTargets = [],
       selectedAction = ActShieldBash, gameState = playing \<rparr>"

definition levelSolo :: LevelData where
  "levelSolo = \<lparr> levelId = 1, gridSize = 3,
       units0 = [\<lparr> uid = ''hero'', position = (1, 1), hp = 1, moveRange = 1, attackRange = 1,
                   damage = 5, team = Player, emoji = SHIELD, stunned = False \<rparr>],
       mapSetup = (\<lambda>x y. plains) \<rparr>"

definition sessionWon :: Session where
  "sessionWon = checkOutcome (initialSession levelSolo)"

definition levelSkirmish :: LevelData where
  "levelSkirmish = \<lparr> levelId = 1, gridSize = 3,
       units0 = [\<lparr> uid = ''hero'', position = (0, 1), hp = 1, moveRange = 1, attackRange = 1,
                   damage = 5, team = Player, emoji = SHIELD, stunned = False \<rparr>,
                 \<lparr> uid = ''skel1'', position = (2, 1), hp = 4, moveRange = 2, attackRange = 2,
                   damage = 4, team = Enemy, emoji = ARCHER, stunned = False \<rparr>],
       mapSetup = (\<lambda>x y. plains) \<rparr>"

definition skirmishHero :: Unit where
  "skirmishHero = \<lparr> uid = ''hero'', position = (1, 1), hp = 1, moveRange = 1, attackRange = 1,
       damage = 5, team = Player, emoji = SHIELD, stunned = False \<rparr>"

definition sessionSelected :: Session where
  "sessionSelected = (initialSession levelSkirmish)\<lparr>selectedUnitId := Some ''hero'',
       validMoves := [(1, 1), (0, 2), (0, 0)]\<rparr>"

definition sessionMoved :: Session where
  "sessionMoved = \<lparr> units = [skirmishHero, units0 levelSkirmish ! 1],
       selectedUnitId = Some ''hero'', validMoves = [], currentTurn = TurnPlayer, hasMoved = True,
       validTargets = [(2, 1)], selectedAction = ActAttack, gameState = playing \<rparr>"

definition sessionStruck :: Session where
  "sessionStruck = \<lparr> units = [skirmishHero], selectedUnitId = None, validMoves = [],
       currentTurn = TurnEnemy, hasMoved = False, validTargets = [], selectedAction = ActAttack,
       gameState = playing \<rparr>"

definition sessionVictory :: Session where
  "sessionVictory = sessionStruck\<lparr>gameState := won\<rparr>"

definition levelDuel :: LevelData where
  "levelDuel = \<lparr> levelId = 1, gridSize = 5, units0 = [], mapSetup = (\<lambda>x y. plains) \<rparr>"

definition duelHero :: Unit where
  "duelHero = \<lparr> uid = ''hero'', position = (2, 2), hp = 9, moveRange = 3, attackRange = 1,
       damage = 5, team = Player, emoji = SHIELD, stunned = False \<rparr>"

definition duelArcher :: Unit where
  "duelArcher = \<lparr> uid = ''skel1'', position = (4, 4), hp = 4, moveRange = 2, attackRange = 2,
       damage = 4, team = Enemy, emoji = ARCHER, stunned = False \<rparr>"

definition duelGuard :: Unit where
  "duelGuard = \<lparr> uid = ''shield1'', position = (3, 2), hp = 8, moveRange = 2, attackRange = 1,
       damage = 1, team = Enemy, emoji = SHIELD, stunned = False \<rparr>"

definition sessionDuel :: Session where
  "sessionDuel = \<lparr> units = [duelHero, duelArcher, duelGuard], selectedUnitId = None,
       validMoves = [], currentTurn = TurnEnemy, hasMoved = False, validTargets = [],
       selectedAction = ActAttack, gameState = playing \<rparr>"

chapter \<open>Properties\<close>

section \<open>Line of sight (hasLineOfSight)\<close>

lemma los_tie_forward: "hasLineOfSight levelTie (0, 0) (2, 1) = Some (Inr False)"
  by (simp add: hasLineOfSight_def losLoop.simps terrainAt_def inBounds_def levelTie_def)

lemma los_tie_backward: "hasLineOfSight levelTie (2, 1) (0, 0) = Some (Inr True)"
  by (simp add: hasLineOfSight_def losLoop.simps terrainAt_def inBounds_def levelTie_def)

subsection \<open>The loop on rows, columns and diagonals\<close>

lemma line_lemma:
  fixes k :: nat
  assumes d: "0 \<le> dx" "0 \<le> dy" "dx = 0 \<or> dy = 0 \<or> dx = dy" "0 < dx + dy"
    and s: "sx \<noteq> 0" "sy \<noteq> 0"
    and u: "ux = (if 2 * (dx - dy) > - dy then sx else 0)" "uy = (if 2 * (dx - dy) < dx then sy else 0)"
    and ib: "\<forall>j\<in>{1..k}. inBounds L (x1 - int j * ux, y1 - int j * uy)"
  shows "losLoop L start (x1, y1) dx dy sx sy (x1 - int k * ux) (y1 - int k * uy) (dx - dy)
       = Some (Inr (\<forall>j\<in>{1..k}. (x1 - int j * ux, y1 - int j * uy) = start
                      \<or> mapSetup L (x1 - int j * ux) (y1 - int j * uy) \<noteq> mountain))"
  using ib
proof (induction k)
  case 0
  show ?case by (subst losLoop.simps) simp
next
  case (Suc k)
  have nz: "ux \<noteq> 0 \<or> uy \<noteq> 0" using d s u by auto
  have notend: "\<not> (x1 - int (Suc k) * ux = x1 \<and> y1 - int (Suc k) * uy = y1)"
    using nz by auto
  have ibk: "inBounds L (x1 - int (Suc k) * ux, y1 - int (Suc k) * uy)"
    using Suc.prems by (rule bspec) simp
  have ih: "losLoop L start (x1, y1) dx dy sx sy (x1 - int k * ux) (y1 - int k * uy) (dx - dy)
       = Some (Inr (\<forall>j\<in>{1..k}. (x1 - int j * ux, y1 - int j * uy) = start
                      \<or> mapSetup L (x1 - int j * ux) (y1 - int j * uy) \<noteq> mountain))"
    using Suc.prems by (intro Suc.IH) simp
  have nx: "(if 2 * (dx - dy) > - dy then x1 - int (Suc k) * ux + sx else x1 - int (Suc k) * ux) = x1 - int k * ux"
    using u by (auto simp: algebra_simps)
  have ny: "(if 2 * (dx - dy) < dx then y1 - int (Suc k) * uy + sy else y1 - int (Suc k) * uy) = y1 - int k * uy"
    using u by (auto simp: algebra_simps)
  have ne: "(if 2 * (dx - dy) > - dy then dx - dy - dy else dx - dy) + (if 2 * (dx - dy) < dx then dx else 0) = dx - dy"
    using d by auto
  have split: "(\<forall>j\<in>{1..Suc k}. P j) \<longleftrightarrow> P (Suc k) \<and> (\<forall>j\<in>{1..k}. P j)" for P
    by (simp add: atLeastAtMostSuc_conv)
  show ?case
    apply (subst losLoop.simps)
    apply (simp only: nx ny ne ih fst_conv snd_conv notend if_False)
    apply (subst split)
    using ibk
    apply (auto simp: terrainAt_def)
    done
qed

lemma los_same: "hasLineOfSight L a a = Some (Inr True)"
  unfolding hasLineOfSight_def by (subst losLoop.simps) simp

lemma los_straight:
  assumes a: "inBounds L a" and b: "inBounds L b" and ne: "a \<noteq> b" and st: "straight a b"
  shows "hasLineOfSight L a b = Some (Inr (clearBetween L a b))"
proof -
  obtain x0 y0 x1 y1 where ab: "a = (x0, y0)" "b = (x1, y1)" by (cases a, cases b) auto
  define dx dy where "dx = \<bar>x1 - x0\<bar>" and "dy = \<bar>y1 - y0\<bar>"
  define sx sy :: int where "sx = (if x0 < x1 then 1 else - 1)" and "sy = (if y0 < y1 then 1 else - 1)"
  define ux uy where "ux = (if 2 * (dx - dy) > - dy then sx else 0)"
    and "uy = (if 2 * (dx - dy) < dx then sy else 0)"
  define k where "k = nat (max dx dy)"
  have d: "0 \<le> dx" "0 \<le> dy" "dx = 0 \<or> dy = 0 \<or> dx = dy" "0 < dx + dy"
    using st ne by (auto simp: dx_def dy_def straight_def ab)
  have s: "sx \<noteq> 0" "sy \<noteq> 0" by (auto simp: sx_def sy_def)
  have uxs: "ux = sgn (x1 - x0)" and uys: "uy = sgn (y1 - y0)"
    using d by (auto simp: ux_def uy_def sx_def sy_def dx_def dy_def sgn_if)
  have kx: "int k * ux = x1 - x0" and ky: "int k * uy = y1 - y0"
    using d by (auto simp: k_def uxs uys dx_def dy_def sgn_if max_def)
  have cell: "x1 - int j * ux = x0 + int (k - j) * ux \<and> y1 - int j * uy = y0 + int (k - j) * uy"
    if "j \<le> k" for j
    using that kx ky by (simp add: of_nat_diff algebra_simps)
  have u1: "ux \<in> {-1, 0, 1}" "uy \<in> {-1, 0, 1}" by (auto simp: uxs uys sgn_if)
  have ib: "\<forall>j\<in>{1..k}. inBounds L (x1 - int j * ux, y1 - int j * uy)"
  proof
    fix j assume j: "j \<in> {1..k}"
    then have jk: "int j \<le> int k" by simp
    have "0 \<le> x1 - int j * ux \<and> x1 - int j * ux < gridSize L"
      using a b jk kx u1(1) unfolding inBounds_def ab by (elim insertE emptyE) auto
    moreover have "0 \<le> y1 - int j * uy \<and> y1 - int j * uy < gridSize L"
      using a b jk ky u1(2) unfolding inBounds_def ab by (elim insertE emptyE) auto
    ultimately show "inBounds L (x1 - int j * ux, y1 - int j * uy)"
      by (simp add: inBounds_def)
  qed
  have run: "losLoop L a (x1, y1) dx dy sx sy (x1 - int k * ux) (y1 - int k * uy) (dx - dy)
       = Some (Inr (\<forall>j\<in>{1..k}. (x1 - int j * ux, y1 - int j * uy) = a
                      \<or> mapSetup L (x1 - int j * ux) (y1 - int j * uy) \<noteq> mountain))"
    by (rule line_lemma [OF d s ux_def uy_def ib])
  have nz: "ux \<noteq> 0 \<or> uy \<noteq> 0" using kx ky ne ab by auto
  have eq: "(\<forall>j\<in>{1..k}. (x1 - int j * ux, y1 - int j * uy) = a
                \<or> mapSetup L (x1 - int j * ux) (y1 - int j * uy) \<noteq> mountain)
         \<longleftrightarrow> clearBetween L a b" (is "?lhs \<longleftrightarrow> ?rhs")
  proof
    assume l: ?lhs
    show ?rhs unfolding clearBetween_def
    proof
      fix i assume "i \<in> {1..<nat (max \<bar>fst b - fst a\<bar> \<bar>snd b - snd a\<bar>)}"
      then have i: "1 \<le> i" "i < k" by (auto simp: k_def dx_def dy_def ab)
      then have j: "k - i \<in> {1..k}" by auto
      have c: "x1 - int (k - i) * ux = x0 + int i * ux \<and> y1 - int (k - i) * uy = y0 + int i * uy"
        using cell [of "k - i"] i by simp
      have "(x0 + int i * ux, y0 + int i * uy) \<noteq> a" using nz i by (auto simp: ab)
      with bspec [OF l j] c
      show "mapSetup L (fst a + int i * sgn (fst b - fst a)) (snd a + int i * sgn (snd b - snd a)) \<noteq> mountain"
        by (auto simp: ab uxs uys)
    qed
  next
    assume r: ?rhs
    show ?lhs
    proof
      fix j assume j: "j \<in> {1..k}"
      show "(x1 - int j * ux, y1 - int j * uy) = a
                \<or> mapSetup L (x1 - int j * ux) (y1 - int j * uy) \<noteq> mountain"
      proof (cases "j = k")
        case True
        then show ?thesis using kx ky by (simp add: ab)
      next
        case False
        with j have "k - j \<in> {1..<k}" by auto
        then have i: "k - j \<in> {1..<nat (max \<bar>fst b - fst a\<bar> \<bar>snd b - snd a\<bar>)}"
          by (simp add: k_def dx_def dy_def ab)
        from r [unfolded clearBetween_def, THEN bspec, OF i] cell [of j] j
        show ?thesis by (simp add: ab uxs uys)
      qed
    qed
  qed
  have st0: "x1 - int k * ux = x0" "y1 - int k * uy = y0" using kx ky by auto
  have "losLoop L a (x1, y1) dx dy sx sy x0 y0 (dx - dy) = Some (Inr (clearBetween L a b))"
    using run unfolding st0 eq .
  then show ?thesis
    unfolding hasLineOfSight_def ab dx_def dy_def sx_def sy_def by simp
qed

lemma clearBetween_sym:
  assumes st: "straight a b"
  shows "clearBetween L a b = clearBetween L b a"
proof -
  define k where "k = nat (max \<bar>fst b - fst a\<bar> \<bar>snd b - snd a\<bar>)"
  have k': "nat (max \<bar>fst a - fst b\<bar> \<bar>snd a - snd b\<bar>) = k"
    by (simp add: k_def abs_minus_commute)
  have kx: "int k * sgn (fst b - fst a) = fst b - fst a" and ky: "int k * sgn (snd b - snd a) = snd b - snd a"
    using st by (auto simp: k_def straight_def sgn_if max_def)
  have flip: "fst b + int (k - i) * sgn (fst a - fst b) = fst a + int i * sgn (fst b - fst a)
      \<and> snd b + int (k - i) * sgn (snd a - snd b) = snd a + int i * sgn (snd b - snd a)"
    if "i \<le> k" for i
  proof -
    have "sgn (fst a - fst b) = - sgn (fst b - fst a)" "sgn (snd a - snd b) = - sgn (snd b - snd a)"
      by (auto simp: sgn_if)
    then show ?thesis using that kx ky by (simp add: of_nat_diff algebra_simps)
  qed
  have flip': "fst a + int (k - i) * sgn (fst b - fst a) = fst b + int i * sgn (fst a - fst b)
      \<and> snd a + int (k - i) * sgn (snd b - snd a) = snd b + int i * sgn (snd a - snd b)"
    if "i \<le> k" for i
    using flip [of "k - i"] that by simp
  show ?thesis
    unfolding clearBetween_def k' k_def [symmetric]
  proof (intro iffI ballI)
    fix i assume h: "\<forall>j\<in>{1..<k}. mapSetup L (fst a + int j * sgn (fst b - fst a)) (snd a + int j * sgn (snd b - snd a)) \<noteq> mountain"
      and i: "i \<in> {1..<k}"
    then have "k - i \<in> {1..<k}" by auto
    from bspec [OF h this] flip' [of i] i
    show "mapSetup L (fst b + int i * sgn (fst a - fst b)) (snd b + int i * sgn (snd a - snd b)) \<noteq> mountain"
      by simp
  next
    fix i assume h: "\<forall>j\<in>{1..<k}. mapSetup L (fst b + int j * sgn (fst a - fst b)) (snd b + int j * sgn (snd a - snd b)) \<noteq> mountain"
      and i: "i \<in> {1..<k}"
    then have "k - i \<in> {1..<k}" by auto
    from bspec [OF h this] flip [of i] i
    show "mapSetup L (fst a + int i * sgn (fst b - fst a)) (snd a + int i * sgn (snd b - snd a)) \<noteq> mountain"
      by simp
  qed
qed

lemma straight_sym: "straight a b = straight b a"
  by (auto simp: straight_def)

subsection \<open>The loop returns\<close>

lemma losLoop_returns:
  fixes a b :: int
  assumes dx: "dx = \<bar>X1 - X0\<bar>" and dy: "dy = \<bar>Y1 - Y0\<bar>"
    and sx: "sx = (if X0 < X1 then 1 else - 1)" and sy: "sy = (if Y0 < Y1 then 1 else - 1)"
    and a: "0 \<le> a" "a \<le> dx" and b: "0 \<le> b" "b \<le> dy"
    and m: "n = nat (dx - a + (dy - b))"
  shows "\<exists>r. losLoop L (X0, Y0) (X1, Y1) dx dy sx sy (X0 + sx * a) (Y0 + sy * b)
            (dx - dy - a * dy + b * dx) = Some r
          \<and> (inBounds L (X0, Y0) \<longrightarrow> inBounds L (X1, Y1) \<longrightarrow> (\<exists>v. r = Inr v))"
  using a b m
proof (induction n arbitrary: a b rule: less_induct)
  case (less n)
  let ?err = "dx - dy - a * dy + b * dx"
  let ?x = "X0 + sx * a" and ?y = "Y0 + sy * b"
  have X1: "X1 = X0 + sx * dx" and Y1: "Y1 = Y0 + sy * dy"
    by (auto simp: dx dy sx sy)
  have s1: "sx \<noteq> 0" "sy \<noteq> 0" by (auto simp: sx sy)
  have atend: "(?x = X1 \<and> ?y = Y1) \<longleftrightarrow> (a = dx \<and> b = dy)"
    using s1 by (auto simp: X1 Y1)
  have ibcell: "inBounds L (?x, ?y)" if "inBounds L (X0, Y0)" "inBounds L (X1, Y1)"
  proof -
    have "sx * a = a \<or> sx * a = - a" "sy * b = b \<or> sy * b = - b" by (auto simp: sx sy)
    then show ?thesis
      using that less.prems(1-4) unfolding inBounds_def dx dy sx sy
      by (auto split: if_splits)
  qed
  show ?case
  proof (cases "a = dx \<and> b = dy")
    case True
    then have "?x = X1 \<and> ?y = Y1" using atend by simp
    then show ?thesis by (subst losLoop.simps) auto
  next
    case False
    then have ne: "\<not> (?x = X1 \<and> ?y = Y1)" using atend by simp
    define stepx where "stepx = (2 * ?err > - dy)"
    define stepy where "stepy = (2 * ?err < dx)"
    define a' where "a' = (if stepx then a + 1 else a)"
    define b' where "b' = (if stepy then b + 1 else b)"
    have dxy: "0 \<le> dx" "0 \<le> dy" by (auto simp: dx dy)
    have ax: "a < dx" if stepx
    proof (rule ccontr)
      assume "\<not> a < dx"
      then have ad: "a = dx" using less.prems by simp
      then have bd: "b < dy" using False less.prems by auto
      have "dx * (1 + b - dy) \<le> 0" using dxy bd by (intro mult_nonneg_nonpos) auto
      then have "?err \<le> - dy" unfolding ad by (simp add: algebra_simps)
      then show False using that dxy unfolding stepx_def by simp
    qed
    have by': "b < dy" if stepy
    proof (rule ccontr)
      assume "\<not> b < dy"
      then have bd: "b = dy" using less.prems by simp
      then have ad: "a < dx" using False less.prems by auto
      have "0 \<le> dy * (dx - a - 1)" using dxy ad by (intro mult_nonneg_nonneg) auto
      then have "dx \<le> ?err" unfolding bd by (simp add: algebra_simps)
      then show False using that dxy unfolding stepy_def by simp
    qed
    have prog: "stepx \<or> stepy"
    proof (rule ccontr)
      assume "\<not> (stepx \<or> stepy)"
      then have "2 * ?err \<le> - dy" "dx \<le> 2 * ?err" by (auto simp: stepx_def stepy_def)
      then have "dx = 0 \<and> dy = 0" using dxy by auto
      then show False using False less.prems by auto
    qed
    have a'b: "0 \<le> a'" "a' \<le> dx" "0 \<le> b'" "b' \<le> dy"
      using ax by' less.prems by (auto simp: a'_def b'_def)
    have lt: "nat (dx - a' + (dy - b')) < n"
      using prog ax by' less.prems by (auto simp: a'_def b'_def)
    have nx: "(if 2 * ?err > - dy then ?x + sx else ?x) = X0 + sx * a'"
      by (auto simp: a'_def stepx_def algebra_simps)
    have ny: "(if 2 * ?err < dx then ?y + sy else ?y) = Y0 + sy * b'"
      by (auto simp: b'_def stepy_def algebra_simps)
    have nerr: "(if 2 * ?err > - dy then ?err - dy else ?err) + (if 2 * ?err < dx then dx else 0)
        = dx - dy - a' * dy + b' * dx"
      by (auto simp: a'_def b'_def stepx_def stepy_def algebra_simps)
    from less.IH [OF lt a'b refl]
    obtain r where r: "losLoop L (X0, Y0) (X1, Y1) dx dy sx sy (X0 + sx * a') (Y0 + sy * b')
            (dx - dy - a' * dy + b' * dx) = Some r"
         "inBounds L (X0, Y0) \<longrightarrow> inBounds L (X1, Y1) \<longrightarrow> (\<exists>v. r = Inr v)"
      by blast
    show ?thesis
      apply (subst losLoop.simps)
      apply (simp only: nx ny nerr fst_conv snd_conv ne if_False r)
      using ibcell r(2)
      apply (auto simp: terrainAt_def)
      done
  qed
qed

lemma hasLineOfSight_returns: "\<exists>r. hasLineOfSight L s e = Some r"
proof -
  obtain X0 Y0 X1 Y1 where se: "s = (X0, Y0)" "e = (X1, Y1)" by (cases s, cases e) auto
  show ?thesis
    unfolding hasLineOfSight_def se fst_conv snd_conv
    using losLoop_returns [of "\<bar>X1 - X0\<bar>" X1 X0 "\<bar>Y1 - Y0\<bar>" Y1 Y0 _ _ 0 0 _ L, OF refl refl refl refl]
    by auto
qed

lemma hasLineOfSight_inBounds:
  assumes "inBounds L s" "inBounds L e"
  shows "\<exists>v. hasLineOfSight L s e = Some (Inr v)"
proof -
  obtain X0 Y0 X1 Y1 where se: "s = (X0, Y0)" "e = (X1, Y1)" by (cases s, cases e) auto
  show ?thesis
    using assms
    unfolding hasLineOfSight_def se fst_conv snd_conv
    using losLoop_returns [of "\<bar>X1 - X0\<bar>" X1 X0 "\<bar>Y1 - Y0\<bar>" Y1 Y0 _ _ 0 0 _ L, OF refl refl refl refl]
    by auto
qed

subsection \<open>Claim C7\<close>

text \<open>
  C7, as amended: for in-bounds cells that share a row, a column or an exact diagonal,
  \<open>hasLineOfSight\<close> returns, and returns the same boolean in both directions, namely
  whether the cells strictly between the two are free of mountains.
\<close>

theorem C7_los_symmetric_on_straight_lines:
  assumes "inBounds L a" "inBounds L b" "straight a b"
  shows "hasLineOfSight L a b = hasLineOfSight L b a
       \<and> hasLineOfSight L a b = Some (Inr (clearBetween L a b))"
proof (cases "a = b")
  case True
  then show ?thesis by (simp add: los_same clearBetween_def)
next
  case False
  then show ?thesis
    using assms los_straight [of L a b] los_straight [of L b a] clearBetween_sym [of a b L]
    by (simp add: straight_sym [of b a])
qed

theorem C7_los_symmetric_witness:
  "inBounds levelTie (0, 0) \<and> inBounds levelTie (2, 0) \<and> straight (0, 0) (2, 0)
   \<and> hasLineOfSight levelTie (0, 0) (2, 0) = hasLineOfSight levelTie (2, 0) (0, 0)
   \<and> hasLineOfSight levelTie (0, 0) (2, 0) = Some (Inr False)"
proof -
  have ib: "inBounds levelTie (0, 0)" "inBounds levelTie (2, 0)"
    by (simp_all add: inBounds_def levelTie_def)
  have st: "straight (0, 0) (2, 0)" by (simp add: straight_def)
  have "hasLineOfSight levelTie (0, 0) (2, 0) = hasLineOfSight levelTie (2, 0) (0, 0)"
    using C7_los_symmetric_on_straight_lines [OF ib st] by simp
  moreover have "hasLineOfSight levelTie (0, 0) (2, 0) = Some (Inr False)"
    by (simp add: hasLineOfSight_def losLoop.simps terrainAt_def inBounds_def levelTie_def)
  ultimately show ?thesis using ib st by simp
qed

text \<open>
  C7 as stated fails: from (0,0) to (2,1) the trace passes (1,0), a mountain of
  \<open>levelTie\<close>, and from (2,1) to (0,0) it passes (1,1), which is plains.
\<close>

theorem C7_los_asymmetric_counterexample:
  "inBounds levelTie (0, 0) \<and> inBounds levelTie (2, 1)
   \<and> hasLineOfSight levelTie (0, 0) (2, 1) = Some (Inr False)
   \<and> hasLineOfSight levelTie (2, 1) (0, 0) = Some (Inr True)"
  using los_tie_forward los_tie_backward by (simp add: inBounds_def levelTie_def)

section \<open>Pathfinding (getValidMoves)\<close>

lemma visitNeighbor_good:
  assumes cur: "queueNode L us unit current"
    and nb: "nb \<in> set (neighbours (fst current))"
    and q: "\<forall>n\<in>set (fst qv). queueNode L us unit n"
    and v: "position unit \<in> set (snd qv)"
  shows "(\<forall>n\<in>set (fst (visitNeighbor L us unit sof current qv nb)). queueNode L us unit n)
       \<and> position unit \<in> set (snd (visitNeighbor L us unit sof current qv nb))"
proof -
  have cost0: "0 \<le> snd current" using cur by (auto simp: queueNode_def goodNode_def)
  have "\<exists>k\<le>snd current. reach L us (position unit) (fst current) k"
  proof (cases "current = (position unit, 0)")
    case True
    have "reach L us (position unit) (position unit) 0" by (rule reach_start)
    then show ?thesis using True by auto
  next
    case False
    then show ?thesis using cur by (simp add: queueNode_def goodNode_def)
  qed
  then obtain k where k: "k \<le> snd current" "reach L us (position unit) (fst current) k"
    by blast
  have pushed: "goodNode L us unit (nb, snd current + c)"
    if "enterable L us nb" "nb \<notin> set (snd qv)" "snd current + c \<le> moveRange unit"
       "entryCost L nb \<le> c" for c
  proof -
    have "reach L us (position unit) nb (k + entryCost L nb)"
      using k(2) nb that(1) by (rule reach_step)
    moreover have "k + entryCost L nb \<le> snd current + c" using k(1) that(4) by simp
    moreover have "0 < entryCost L nb" by (simp add: entryCost_def)
    ultimately show ?thesis
      using that v cost0 unfolding goodNode_def by (auto simp del: ex_simps)
  qed
  show ?thesis
    using q v pushed [of 2] pushed [of 1] pushed [of "entryCost L nb"]
    by (auto simp: visitNeighbor_def pushIfAffordable_def Let_def queueNode_def enterable_def
        inBounds_def entryCost_def split: if_splits)
qed

lemma foldl_visitNeighbor_good:
  assumes cur: "queueNode L us unit current"
    and nbs: "set nbs \<subseteq> set (neighbours (fst current))"
    and q: "\<forall>n\<in>set (fst qv). queueNode L us unit n"
    and v: "position unit \<in> set (snd qv)"
  shows "(\<forall>n\<in>set (fst (foldl (visitNeighbor L us unit sof current) qv nbs)). queueNode L us unit n)
       \<and> position unit \<in> set (snd (foldl (visitNeighbor L us unit sof current) qv nbs))"
  using nbs q v
proof (induction nbs arbitrary: qv)
  case Nil
  then show ?case by simp
next
  case (Cons nb nbs)
  have nb: "nb \<in> set (neighbours (fst current))"
    and rest: "set nbs \<subseteq> set (neighbours (fst current))"
    using Cons.prems(1) by simp_all
  note step = visitNeighbor_good [OF cur nb Cons.prems(2,3), of sof]
  show ?case
    unfolding foldl_Cons by (rule Cons.IH [OF rest conjunct1 [OF step] conjunct2 [OF step]])
qed

lemma bfs_good:
  assumes "\<forall>n\<in>set queue. queueNode L us unit n"
    and "position unit \<in> set visited"
    and "\<forall>n\<in>set valid. goodNode L us unit n"
  shows "\<forall>n\<in>set (bfs L us unit sof queue visited valid). goodNode L us unit n"
  using assms
proof (induction L us unit sof queue visited valid rule: bfs.induct)
  case (1 L us unit sof visited valid)
  then show ?case by simp
next
  case (2 L us unit sof current rest visited valid)
  let ?valid' = "if snd current > 0 then valid @ [current] else valid"
  let ?qv = "foldl (visitNeighbor L us unit sof current) (rest, visited) (neighbours (fst current))"
  have cur: "queueNode L us unit current" using "2.prems"(1) by simp
  have v': "\<forall>n\<in>set ?valid'. goodNode L us unit n"
    using cur "2.prems"(3) by (auto simp: queueNode_def)
  have "\<forall>n\<in>set (fst (rest, visited)). queueNode L us unit n" using "2.prems"(1) by simp
  moreover have "position unit \<in> set (snd (rest, visited))" using "2.prems"(2) by simp
  ultimately have qv: "(\<forall>n\<in>set (fst ?qv). queueNode L us unit n) \<and> position unit \<in> set (snd ?qv)"
    by (intro foldl_visitNeighbor_good [OF cur]) auto
  have out: "bfs L us unit sof (current # rest) visited valid
      = bfs L us unit sof (fst ?qv) (snd ?qv) ?valid'"
    by (simp add: Let_def)
  show ?case
    unfolding out using qv v' by (intro "2.IH" [OF refl refl]) auto
qed

lemma validNodes_good:
  assumes "validNodes L us unit = Inr nodes" "n \<in> set nodes"
  shows "goodNode L us unit n"
proof -
  have "\<forall>n\<in>set (bfs L us unit sof [(position unit, 0)] [position unit] []). goodNode L us unit n" for sof
    by (rule bfs_good) (auto simp: queueNode_def)
  then show ?thesis
    using assms by (auto simp: validNodes_def split: if_splits sum.splits)
qed

lemma validNodes_returns:
  assumes "inBounds L (position unit)"
  shows "\<exists>nodes. validNodes L us unit = Inr nodes"
  using assms by (auto simp: validNodes_def startsOnForest_def terrainAt_def)

lemma visitNeighbor_eq:
  "visitNeighbor L us unit sof current qv nb =
     (if enterable L us nb \<and> snd current + stepCost L sof current nb \<le> moveRange unit
         \<and> nb \<notin> set (snd qv)
      then (fst qv @ [(nb, snd current + stepCost L sof current nb)], snd qv @ [nb]) else qv)"
  by (cases qv)
     (auto simp: visitNeighbor_def pushIfAffordable_def Let_def enterable_def inBounds_def
        stepCost_def entryCost_def)

lemma stepCost_bounds: "1 \<le> stepCost L sof current nb" "stepCost L sof current nb \<le> 2"
  by (auto simp: stepCost_def entryCost_def)

lemma foldl_visitNeighbor_queue_mono:
  "set (fst qv) \<subseteq> set (fst (foldl (visitNeighbor L us unit sof current) qv nbs))"
proof (induction nbs arbitrary: qv)
  case Nil
  then show ?case by simp
next
  case (Cons nb nbs)
  have "set (fst qv) \<subseteq> set (fst (visitNeighbor L us unit sof current qv nb))"
    by (auto simp: visitNeighbor_eq)
  also have "\<dots> \<subseteq> set (fst (foldl (visitNeighbor L us unit sof current)
      (visitNeighbor L us unit sof current qv nb) nbs))"
    by (rule Cons.IH)
  finally show ?case by simp
qed

lemma bfs_keeps:
  "set valid \<subseteq> set (bfs L us unit sof queue visited valid)
   \<and> (\<forall>n\<in>set queue. 0 < snd n \<longrightarrow> n \<in> set (bfs L us unit sof queue visited valid))"
proof (induction L us unit sof queue visited valid rule: bfs.induct)
  case (1 L us unit sof visited valid)
  then show ?case by simp
next
  case (2 L us unit sof current rest visited valid)
  let ?valid' = "if snd current > 0 then valid @ [current] else valid"
  let ?qv = "foldl (visitNeighbor L us unit sof current) (rest, visited) (neighbours (fst current))"
  let ?out = "bfs L us unit sof (fst ?qv) (snd ?qv) ?valid'"
  have ih: "set ?valid' \<subseteq> set ?out" "\<forall>n\<in>set (fst ?qv). 0 < snd n \<longrightarrow> n \<in> set ?out"
    using "2.IH" [OF refl refl] by simp_all
  have rest: "set rest \<subseteq> set (fst ?qv)"
    using foldl_visitNeighbor_queue_mono [of "(rest, visited)"] by simp
  have out: "bfs L us unit sof (current # rest) visited valid = ?out"
    by (simp add: Let_def)
  show ?case
    unfolding out using ih rest by (auto split: if_splits)
qed

text \<open>What one expansion adds to the queue and to the visited set.\<close>

lemma foldl_visitNeighbor_expand:
  fixes L us unit sof current
  defines "visit \<equiv> visitNeighbor L us unit sof current"
  shows "(\<forall>n\<in>set (fst (foldl visit qv nbs)). n \<in> set (fst qv)
            \<or> (fst n \<in> set nbs \<and> fst n \<notin> set (snd qv)
               \<and> enterable L us (fst n) \<and> snd n \<le> moveRange unit
               \<and> snd n = snd current + stepCost L sof current (fst n)))
       \<and> set (snd qv) \<subseteq> set (snd (foldl visit qv nbs))
       \<and> (\<forall>p\<in>set nbs. p \<in> set (snd (foldl visit qv nbs)) \<or> \<not> enterable L us p
             \<or> moveRange unit < snd current + stepCost L sof current p)
       \<and> (\<forall>p\<in>set nbs. enterable L us p \<longrightarrow> p \<notin> set (snd qv)
            \<longrightarrow> snd current + stepCost L sof current p \<le> moveRange unit
            \<longrightarrow> (p, snd current + stepCost L sof current p) \<in> set (fst (foldl visit qv nbs)))"
proof (induction nbs arbitrary: qv)
  case Nil
  then show ?case by simp
next
  case (Cons nb nbs)
  let ?qv1 = "visit qv nb"
  note ih = Cons.IH [of ?qv1]
  have q1: "\<forall>n\<in>set (fst ?qv1). n \<in> set (fst qv)
      \<or> (fst n = nb \<and> fst n \<notin> set (snd qv) \<and> enterable L us (fst n)
         \<and> snd n \<le> moveRange unit \<and> snd n = snd current + stepCost L sof current (fst n))"
    by (auto simp: visit_def visitNeighbor_eq)
  have v1: "set (snd qv) \<subseteq> set (snd ?qv1)" "set (snd ?qv1) \<subseteq> insert nb (set (snd qv))"
    by (auto simp: visit_def visitNeighbor_eq)
  have nb1: "nb \<in> set (snd ?qv1) \<or> \<not> enterable L us nb
      \<or> moveRange unit < snd current + stepCost L sof current nb"
    by (auto simp: visit_def visitNeighbor_eq)
  have nb2: "enterable L us nb \<longrightarrow> nb \<notin> set (snd qv)
      \<longrightarrow> snd current + stepCost L sof current nb \<le> moveRange unit
      \<longrightarrow> (nb, snd current + stepCost L sof current nb) \<in> set (fst ?qv1)"
    by (auto simp: visit_def visitNeighbor_eq)
  have mono: "set (fst ?qv1) \<subseteq> set (fst (foldl visit ?qv1 nbs))"
    unfolding visit_def by (rule foldl_visitNeighbor_queue_mono)
  have c1: "\<forall>n\<in>set (fst (foldl visit ?qv1 nbs)). n \<in> set (fst qv)
            \<or> (fst n \<in> set (nb # nbs) \<and> fst n \<notin> set (snd qv)
               \<and> enterable L us (fst n) \<and> snd n \<le> moveRange unit
               \<and> snd n = snd current + stepCost L sof current (fst n))"
    using ih q1 v1 by (auto 4 3)
  have c2: "set (snd qv) \<subseteq> set (snd (foldl visit ?qv1 nbs))"
    using ih v1 by blast
  have c3: "\<forall>p\<in>set (nb # nbs). p \<in> set (snd (foldl visit ?qv1 nbs)) \<or> \<not> enterable L us p
             \<or> moveRange unit < snd current + stepCost L sof current p"
    using ih nb1 by auto
  have c4: "\<forall>p\<in>set (nb # nbs). enterable L us p \<longrightarrow> p \<notin> set (snd qv)
            \<longrightarrow> snd current + stepCost L sof current p \<le> moveRange unit
            \<longrightarrow> (p, snd current + stepCost L sof current p) \<in> set (fst (foldl visit ?qv1 nbs))"
  proof (intro ballI impI)
    fix p assume p: "p \<in> set (nb # nbs)" "enterable L us p" "p \<notin> set (snd qv)"
      "snd current + stepCost L sof current p \<le> moveRange unit"
    show "(p, snd current + stepCost L sof current p) \<in> set (fst (foldl visit ?qv1 nbs))"
    proof (cases "p = nb")
      case True
      then show ?thesis using nb2 p mono by auto
    next
      case False
      then have pn: "p \<in> set nbs" using p(1) by simp
      have "p \<notin> set (snd ?qv1)" using v1(2) p(3) False by auto
      then show ?thesis using ih pn p(2,4) by blast
    qed
  qed
  show ?case unfolding foldl_Cons using c1 c2 c3 c4 by blast
qed

lemma expand_new:
  assumes "n \<in> set (fst (foldl (visitNeighbor L us unit sof current) qv nbs))"
  shows "n \<in> set (fst qv)
       \<or> (fst n \<in> set nbs \<and> fst n \<notin> set (snd qv) \<and> enterable L us (fst n)
          \<and> snd n \<le> moveRange unit \<and> snd n = snd current + stepCost L sof current (fst n))"
  using foldl_visitNeighbor_expand [of L us unit sof current qv nbs, THEN conjunct1] assms
  by (rule bspec)

lemma expand_visited:
  "set (snd qv) \<subseteq> set (snd (foldl (visitNeighbor L us unit sof current) qv nbs))"
  using foldl_visitNeighbor_expand [of L us unit sof current qv nbs] by (elim conjE)

lemma expand_skipped:
  assumes "p \<in> set nbs"
  shows "p \<in> set (snd (foldl (visitNeighbor L us unit sof current) qv nbs))
       \<or> \<not> enterable L us p \<or> moveRange unit < snd current + stepCost L sof current p"
  using foldl_visitNeighbor_expand [of L us unit sof current qv nbs,
      THEN conjunct2, THEN conjunct2, THEN conjunct1] assms
  by (rule bspec)

lemma expand_pushed:
  assumes "p \<in> set nbs" "enterable L us p" "p \<notin> set (snd qv)"
    "snd current + stepCost L sof current p \<le> moveRange unit"
  shows "(p, snd current + stepCost L sof current p)
       \<in> set (fst (foldl (visitNeighbor L us unit sof current) qv nbs))"
  using foldl_visitNeighbor_expand [of L us unit sof current qv nbs,
      THEN conjunct2, THEN conjunct2, THEN conjunct2, THEN bspec, OF assms(1)] assms(2-4)
  by blast

lemma bfs_late:
  assumes "\<forall>n\<in>set queue. 1 \<le> snd n"
    and "\<forall>p\<in>set (neighbours (position unit)). p \<in> set visited \<or> \<not> enterable L us p
            \<or> moveRange unit < 2"
    and "\<forall>n\<in>set queue \<union> set valid. fst n \<in> set (neighbours (position unit)) \<longrightarrow> snd n = fc (fst n)"
  shows "\<forall>n\<in>set (bfs L us unit sof queue visited valid).
           fst n \<in> set (neighbours (position unit)) \<longrightarrow> snd n = fc (fst n)"
  using assms
proof (induction L us unit sof queue visited valid rule: bfs.induct)
  case (1 L us unit sof visited valid)
  then show ?case by simp
next
  case (2 L us unit sof current rest visited valid)
  let ?valid' = "if snd current > 0 then valid @ [current] else valid"
  let ?qv = "foldl (visitNeighbor L us unit sof current) (rest, visited) (neighbours (fst current))"
  have cur: "1 \<le> snd current" using "2.prems"(1) by simp
  have new: "n \<in> set rest \<or> (fst n \<notin> set visited \<and> enterable L us (fst n)
        \<and> snd n \<le> moveRange unit \<and> 2 \<le> snd n)" if "n \<in> set (fst ?qv)" for n
  proof -
    from expand_new [OF that]
    have "n \<in> set rest \<or> (fst n \<notin> set visited \<and> enterable L us (fst n)
        \<and> snd n \<le> moveRange unit \<and> snd n = snd current + stepCost L sof current (fst n))"
      by auto
    then show ?thesis using cur stepCost_bounds(1) [of L sof current "fst n"] by auto
  qed
  have a: "\<forall>n\<in>set (fst ?qv). 1 \<le> snd n"
  proof
    fix n assume "n \<in> set (fst ?qv)"
    from new [OF this] show "1 \<le> snd n" using "2.prems"(1) by auto
  qed
  have vis: "set visited \<subseteq> set (snd ?qv)"
    using expand_visited [where qv = "(rest, visited)" and L = L and us = us and unit = unit
        and sof = sof and current = current and nbs = "neighbours (fst current)"]
    by simp
  have b: "\<forall>p\<in>set (neighbours (position unit)). p \<in> set (snd ?qv) \<or> \<not> enterable L us p
            \<or> moveRange unit < 2"
    using "2.prems"(2) vis by blast
  have c: "\<forall>n\<in>set (fst ?qv) \<union> set ?valid'. fst n \<in> set (neighbours (position unit))
            \<longrightarrow> snd n = fc (fst n)"
  proof (intro ballI impI)
    fix n assume n: "n \<in> set (fst ?qv) \<union> set ?valid'" and adj: "fst n \<in> set (neighbours (position unit))"
    show "snd n = fc (fst n)"
    proof (cases "n \<in> set (current # rest) \<union> set valid")
      case True
      then show ?thesis using "2.prems"(3) adj by auto
    next
      case False
      then have "n \<in> set (fst ?qv)" "n \<notin> set rest" using n by (auto split: if_splits)
      then have "fst n \<notin> set visited" "enterable L us (fst n)" "2 \<le> moveRange unit"
        using new [of n] by auto
      then show ?thesis using "2.prems"(2) adj by auto
    qed
  qed
  have out: "bfs L us unit sof (current # rest) visited valid
      = bfs L us unit sof (fst ?qv) (snd ?qv) ?valid'"
    by (simp add: Let_def)
  show ?case
    unfolding out by (rule "2.IH" [OF refl refl a b c])
qed

lemma neighbours_not_self: "p \<notin> set (neighbours p)"
  by (cases p) (simp add: neighbours_def)

lemma bfs_first_step:
  fixes L us unit sof
  defines "nodes \<equiv> bfs L us unit sof [(position unit, 0)] [position unit] []"
  assumes p: "p \<in> set (neighbours (position unit))" and e: "enterable L us p"
  shows "((p, firstStepCost L sof p) \<in> set nodes \<longleftrightarrow> firstStepCost L sof p \<le> moveRange unit)
       \<and> (\<forall>c. (p, c) \<in> set nodes \<longrightarrow> c = firstStepCost L sof p)"
proof -
  let ?start = "position unit"
  let ?cur = "(?start, 0::int)"
  let ?qv = "foldl (visitNeighbor L us unit sof ?cur) ([], [?start]) (neighbours ?start)"
  have sc: "stepCost L sof ?cur q = firstStepCost L sof q" for q
    by (simp add: stepCost_def firstStepCost_def)
  have fb: "1 \<le> firstStepCost L sof q" "firstStepCost L sof q \<le> 2" for q
    by (auto simp: firstStepCost_def entryCost_def)
  have unfold: "nodes = bfs L us unit sof (fst ?qv) (snd ?qv) []"
    by (simp add: nodes_def Let_def)
  have q: "\<forall>n\<in>set (fst ?qv). fst n \<in> set (neighbours ?start) \<and> snd n = firstStepCost L sof (fst n)"
  proof
    fix n assume "n \<in> set (fst ?qv)"
    from expand_new [OF this]
    show "fst n \<in> set (neighbours ?start) \<and> snd n = firstStepCost L sof (fst n)"
      by (simp add: sc)
  qed
  have a: "\<forall>n\<in>set (fst ?qv). 1 \<le> snd n"
    using q fb(1) by auto
  have b: "\<forall>p\<in>set (neighbours ?start). p \<in> set (snd ?qv) \<or> \<not> enterable L us p
            \<or> moveRange unit < 2"
  proof
    fix r assume "r \<in> set (neighbours ?start)"
    from expand_skipped [OF this, where L = L and us = us and unit = unit
        and sof = sof and current = ?cur and qv = "([], [?start])"]
    have "r \<in> set (snd ?qv) \<or> \<not> enterable L us r \<or> moveRange unit < firstStepCost L sof r"
      by (simp add: sc)
    then show "r \<in> set (snd ?qv) \<or> \<not> enterable L us r \<or> moveRange unit < 2"
      using fb(2) [of r] by auto
  qed
  have c: "\<forall>n\<in>set (fst ?qv) \<union> set []. fst n \<in> set (neighbours ?start)
            \<longrightarrow> snd n = firstStepCost L sof (fst n)"
    using q by auto
  have late: "\<forall>n\<in>set nodes. fst n \<in> set (neighbours ?start) \<longrightarrow> snd n = firstStepCost L sof (fst n)"
    unfolding unfold by (rule bfs_late [OF a b c])
  have uniq: "\<forall>c. (p, c) \<in> set nodes \<longrightarrow> c = firstStepCost L sof p"
    using late p by auto
  have there: "(p, firstStepCost L sof p) \<in> set nodes" if "firstStepCost L sof p \<le> moveRange unit"
  proof -
    have "p \<notin> set (snd ([], [?start]))" using p neighbours_not_self [of ?start] by auto
    from expand_pushed [OF p e this, where unit = unit and sof = sof and current = ?cur] that
    have "(p, firstStepCost L sof p) \<in> set (fst ?qv)"
      by (simp add: sc)
    moreover have "0 < snd (p, firstStepCost L sof p)" using fb(1) [of p] by simp
    ultimately show ?thesis
      unfolding unfold using bfs_keeps [where valid = "[]" and L = L and us = us and unit = unit
          and sof = sof and queue = "fst ?qv" and visited = "snd ?qv"] by blast
  qed
  have bound: "firstStepCost L sof p \<le> moveRange unit" if "(p, firstStepCost L sof p) \<in> set nodes"
  proof -
    have "goodNode L us unit (p, firstStepCost L sof p)"
      using that bfs_good [where queue = "[(?start, 0)]" and L = L and us = us and unit = unit
          and visited = "[?start]" and valid = "[]" and sof = sof]
      by (auto simp: nodes_def queueNode_def)
    then show ?thesis by (simp add: goodNode_def)
  qed
  show ?thesis using uniq there bound by blast
qed

lemma getValidMoves_returns:
  assumes "inBounds L (position unit)"
  shows "\<exists>moves. getValidMoves L us unit = Inr moves"
  using validNodes_returns [OF assms, of us] by (auto simp: getValidMoves_def)

lemmas demo_simps = levelForest_def heroF_def archerF_def guardF_def ARCHER_def SHIELD_def
  inBounds_def terrainAt_def neighbours_def isBlocked_def enterable_def entryCost_def

lemmas bfs_eval = getValidMoves_def validNodes_def startsOnForest_def visitNeighbor_def
  pushIfAffordable_def Let_def

lemma heroF_nodes:
  "validNodes levelForest [heroF, guardF] heroF
     = Inr [((2, 1), 2), ((0, 1), 2), ((3, 1), 3), ((2, 2), 3), ((0, 2), 3)]"
  by (simp add: bfs_eval demo_simps)

lemma archerF_nodes:
  "validNodes levelForest [archerF, guardF] archerF
     = Inr [((2, 1), 1), ((0, 1), 1), ((3, 1), 2), ((2, 2), 2), ((0, 2), 2)]"
  by (simp add: bfs_eval demo_simps)

text \<open>
  C6: whenever the unit stands inside the grid \<open>getValidMoves\<close> returns, and every cell it
  returns is reached from the unit's cell by a walk over enterable cells whose entry costs
  (2 for a forest, 1 otherwise) add up to at most \<open>moveRange\<close>; the cell is inside the grid,
  holds no unit, is neither water nor mountain, and is not the unit's own cell.
\<close>

theorem C6_valid_moves_within_budget:
  "(inBounds L (position unit) \<longrightarrow> (\<exists>moves. getValidMoves L us unit = Inr moves))
   \<and> (\<forall>moves c. getValidMoves L us unit = Inr moves \<longrightarrow> c \<in> set moves \<longrightarrow>
         (\<exists>k\<le>moveRange unit. reach L us (position unit) c k)
         \<and> inBounds L c \<and> \<not> isBlocked us c
         \<and> mapSetup L (fst c) (snd c) \<noteq> water \<and> mapSetup L (fst c) (snd c) \<noteq> mountain
         \<and> c \<noteq> position unit)"
proof (intro conjI impI allI)
  assume "inBounds L (position unit)"
  then show "\<exists>moves. getValidMoves L us unit = Inr moves" by (rule getValidMoves_returns)
next
  fix moves c
  assume m: "getValidMoves L us unit = Inr moves" and c: "c \<in> set moves"
  then obtain nodes n where n: "validNodes L us unit = Inr nodes" "n \<in> set nodes" "c = fst n"
    by (auto simp: getValidMoves_def split: sum.splits)
  then have g: "goodNode L us unit n" by (simp add: validNodes_good)
  then obtain k where k: "k \<le> snd n" "reach L us (position unit) c k"
    by (auto simp: goodNode_def n(3))
  then have "k \<le> moveRange unit" using g by (simp add: goodNode_def)
  with k show "\<exists>k\<le>moveRange unit. reach L us (position unit) c k" by blast
  show "inBounds L c" "\<not> isBlocked us c" "mapSetup L (fst c) (snd c) \<noteq> water"
    "mapSetup L (fst c) (snd c) \<noteq> mountain" "c \<noteq> position unit"
    using g by (simp_all add: goodNode_def enterable_def n(3))
qed

theorem C6_valid_moves_witness:
  "inBounds levelForest (position heroF)
   \<and> getValidMoves levelForest [heroF, guardF] heroF = Inr [(2, 1), (0, 1), (3, 1), (2, 2), (0, 2)]
   \<and> (\<exists>k\<le>moveRange heroF. reach levelForest [heroF, guardF] (position heroF) (2, 2) k)
   \<and> inBounds levelForest (2, 2) \<and> \<not> isBlocked [heroF, guardF] (2, 2)
   \<and> mapSetup levelForest 2 2 \<noteq> water \<and> mapSetup levelForest 2 2 \<noteq> mountain
   \<and> (2, 2) \<noteq> position heroF"
proof -
  have m: "getValidMoves levelForest [heroF, guardF] heroF = Inr [(2, 1), (0, 1), (3, 1), (2, 2), (0, 2)]"
    by (simp add: getValidMoves_def heroF_nodes)
  have c: "(2, 2) \<in> set [(2, 1), (0, 1), (3, 1), (2, 2), (0, 2 :: int) :: Position]" by simp
  have ib: "inBounds levelForest (position heroF)" by (simp add: demo_simps)
  from C6_valid_moves_within_budget [of levelForest heroF "[heroF, guardF]", THEN conjunct2,
      rule_format, OF m c]
  show ?thesis using m ib by simp
qed

text \<open>
  C8: for a unit that is not stunned and an enterable cell \<open>p\<close> next to it. If the unit is
  not an archer and starts on a forest, the node of \<open>p\<close> carries the cost 2 whatever the
  terrain of \<open>p\<close>, and \<open>p\<close> is a valid move exactly when \<open>2 \<le> moveRange\<close>. If the unit is an
  archer, the node of \<open>p\<close> carries the entry cost of \<open>p\<close>, and \<open>p\<close> is a valid move exactly
  when that cost is within \<open>moveRange\<close>.
\<close>

theorem C8_first_step_from_forest:
  assumes "\<not> stunned unit" and "inBounds L (position unit)"
    and "p \<in> set (neighbours (position unit))" and "enterable L us p"
  shows "\<exists>nodes. validNodes L us unit = Inr nodes
       \<and> getValidMoves L us unit = Inr (map fst nodes)
       \<and> (emoji unit \<noteq> ARCHER \<and> mapSetup L (fst (position unit)) (snd (position unit)) = forest
            \<longrightarrow> ((p, 2) \<in> set nodes \<longleftrightarrow> 2 \<le> moveRange unit)
              \<and> (\<forall>c. (p, c) \<in> set nodes \<longrightarrow> c = 2))
       \<and> (emoji unit = ARCHER
            \<longrightarrow> ((p, entryCost L p) \<in> set nodes \<longleftrightarrow> entryCost L p \<le> moveRange unit)
              \<and> (\<forall>c. (p, c) \<in> set nodes \<longrightarrow> c = entryCost L p))"
proof -
  obtain sof where sof: "startsOnForest L unit = Inr sof"
    "sof \<longleftrightarrow> emoji unit \<noteq> ARCHER \<and> mapSetup L (fst (position unit)) (snd (position unit)) = forest"
    using assms(2) by (auto simp: startsOnForest_def terrainAt_def)
  let ?nodes = "bfs L us unit sof [(position unit, 0)] [position unit] []"
  have v: "validNodes L us unit = Inr ?nodes"
    using assms(1) sof(1) by (simp add: validNodes_def)
  have m: "getValidMoves L us unit = Inr (map fst ?nodes)"
    by (simp add: getValidMoves_def v)
  note fs = bfs_first_step [OF assms(3,4), of sof]
  have f: "((p, 2) \<in> set ?nodes \<longleftrightarrow> 2 \<le> moveRange unit) \<and> (\<forall>c. (p, c) \<in> set ?nodes \<longrightarrow> c = 2)"
    if "emoji unit \<noteq> ARCHER \<and> mapSetup L (fst (position unit)) (snd (position unit)) = forest"
  proof -
    have "firstStepCost L sof p = 2" using sof(2) that by (simp add: firstStepCost_def)
    then show ?thesis using fs by simp
  qed
  have a: "((p, entryCost L p) \<in> set ?nodes \<longleftrightarrow> entryCost L p \<le> moveRange unit)
         \<and> (\<forall>c. (p, c) \<in> set ?nodes \<longrightarrow> c = entryCost L p)"
    if "emoji unit = ARCHER"
  proof -
    have "firstStepCost L sof p = entryCost L p" using sof(2) that by (simp add: firstStepCost_def)
    then show ?thesis using fs by simp
  qed
  show ?thesis
    by (rule exI [of _ ?nodes]) (use v m f a in blast)
qed

theorem C8_first_step_witness:
  "\<not> stunned heroF \<and> inBounds levelForest (position heroF)
   \<and> (2, 1) \<in> set (neighbours (position heroF)) \<and> enterable levelForest [heroF, guardF] (2, 1)
   \<and> emoji heroF \<noteq> ARCHER \<and> mapSetup levelForest (fst (position heroF)) (snd (position heroF)) = forest
   \<and> emoji archerF = ARCHER \<and> position archerF = position heroF
   \<and> entryCost levelForest (2, 1) = 1
   \<and> (\<exists>nodes. validNodes levelForest [heroF, guardF] heroF = Inr nodes
        \<and> ((2, 1), 2) \<in> set nodes \<and> (\<forall>c. ((2, 1), c) \<in> set nodes \<longrightarrow> c = 2))
   \<and> (\<exists>nodes. validNodes levelForest [archerF, guardF] archerF = Inr nodes
        \<and> ((2, 1), 1) \<in> set nodes \<and> (\<forall>c. ((2, 1), c) \<in> set nodes \<longrightarrow> c = 1))"
proof -
  have h: "\<not> stunned heroF" "inBounds levelForest (position heroF)"
    "(2, 1) \<in> set (neighbours (position heroF))" "enterable levelForest [heroF, guardF] (2, 1)"
    by (simp_all add: demo_simps)
  have a: "\<not> stunned archerF" "inBounds levelForest (position archerF)"
    "(2, 1) \<in> set (neighbours (position archerF))" "enterable levelForest [archerF, guardF] (2, 1)"
    by (simp_all add: demo_simps)
  have facts: "emoji heroF \<noteq> ARCHER"
    "mapSetup levelForest (fst (position heroF)) (snd (position heroF)) = forest"
    "emoji archerF = ARCHER" "position archerF = position heroF" "entryCost levelForest (2, 1) = 1"
    "moveRange heroF = 3" "moveRange archerF = 2"
    by (simp_all add: demo_simps)
  from C8_first_step_from_forest [OF h] facts
  have 1: "\<exists>nodes. validNodes levelForest [heroF, guardF] heroF = Inr nodes
        \<and> ((2, 1), 2) \<in> set nodes \<and> (\<forall>c. ((2, 1), c) \<in> set nodes \<longrightarrow> c = 2)"
    by auto
  from C8_first_step_from_forest [OF a] facts
  have 2: "\<exists>nodes. validNodes levelForest [archerF, guardF] archerF = Inr nodes
        \<and> ((2, 1), 1) \<in> set nodes \<and> (\<forall>c. ((2, 1), c) \<in> set nodes \<longrightarrow> c = 1)"
    by auto
  show ?thesis using h facts 1 2 by simp
qed

section \<open>Combat resolver (executeAttack, executeShieldBash)\<close>

lemma findIndex_Some:
  "findIndex P xs = Some i \<Longrightarrow> i < length xs \<and> P (xs ! i) \<and> (\<forall>j<i. \<not> P (xs ! j))"
proof (induction xs arbitrary: i)
  case Nil
  then show ?case by simp
next
  case (Cons x xs)
  show ?case
  proof (cases "P x")
    case True
    with Cons.prems show ?thesis by simp
  next
    case False
    with Cons.prems obtain k where k: "findIndex P xs = Some k" "i = Suc k" by auto
    from Cons.IH [OF k(1)] False show ?thesis
      by (auto simp: k(2) nth_Cons split: nat.splits)
  qed
qed

lemma findIndex_None: "findIndex P xs = None \<longleftrightarrow> (\<forall>x\<in>set xs. \<not> P x)"
  by (induction xs) auto









lemma set_alive: "set (alive us) = {u \<in> set us. 0 < hp u}"
  by (auto simp: alive_def)


lemma collisionPoint_unit:
  assumes "collisionPointOf L prev target pushPos = Some cp"
    and "mapSetup L (fst cp) (snd cp) \<noteq> mountain"
  shows "\<exists>hi. hitUnitIndexOf prev target cp = Some hi"
proof -
  from assms(1) have "collides L prev target cp"
    by (auto simp: collisionPointOf_def find_Some_iff)
  with assms(2) have "\<exists>u\<in>set prev. uid u \<noteq> uid target
      \<and> fst (position u) = fst cp \<and> snd (position u) = snd cp"
    by (simp add: collides_def)
  then have "hitUnitIndexOf prev target cp \<noteq> None"
    unfolding hitUnitIndexOf_def findIndex_None by blast
  then show ?thesis by auto
qed

lemma hitUnitIndex_facts:
  assumes "hitUnitIndexOf prev target cp = Some hi"
  shows "hi < length prev" "position (prev ! hi) = cp" "uid (prev ! hi) \<noteq> uid target"
  using findIndex_Some [OF assms [unfolded hitUnitIndexOf_def]]
  by (auto simp: prod_eq_iff)


lemma getKnockbackPath_push:
  "getKnockbackPath (position target) (pushPosOf attacker target) =
     [(fst (position target) + sgn (fst (position target) - fst (position attacker)),
       snd (position target) + sgn (snd (position target) - snd (position attacker))),
      (fst (position target) + sgn (fst (position target) - fst (position attacker)) * 2,
       snd (position target) + sgn (snd (position target) - snd (position attacker)) * 2)]"
  by (simp add: getKnockbackPath_def pushPosOf_def Let_def sgn_if)






lemmas bash_eval = executeShieldBash_def pushPosOf_def isOutOfBounds_def collisionPointOf_def
  collides_def getKnockbackPath_def hitUnitIndexOf_def resolveCollision_def
  resolveUnitCollision_def resolveFreePath_def getPositionBeforeCollision_def splice1_def
  alive_def Let_def

lemmas bash_demo = mkUnit_def levelPass_def knight_def bearer_def bowman_def ARCHER_def SHIELD_def



text \<open>
  A struck unit that stands on a mountain: the pushed unit stops on the mountain cell, and
  the struck unit, archer or shieldbearer, stays on it as it is.
\<close>

lemma bash_onto_archer_on_mountain:
  "collisionPointOf levelPass [squire, brute, bowmanCrag] brute (pushPosOf squire brute) = Some (4, 4)
   \<and> mapSetup levelPass 4 4 = mountain
   \<and> hitUnitIndexOf [squire, brute, bowmanCrag] brute (4, 4) = Some 2
   \<and> emoji brute = SHIELD \<and> emoji bowmanCrag = ARCHER
   \<and> executeShieldBash levelPass squire brute [squire, brute, bowmanCrag]
       = ([squire, brute\<lparr>hp := 7, position := (4, 4), stunned := True\<rparr>, bowmanCrag], True)"
  by (simp add: bash_eval bash_demo squire_def brute_def bowmanCrag_def)

lemma bash_onto_guard_on_mountain:
  "collisionPointOf levelPass [squire, brute, guardCrag] brute (pushPosOf squire brute) = Some (4, 4)
   \<and> mapSetup levelPass 4 4 = mountain
   \<and> hitUnitIndexOf [squire, brute, guardCrag] brute (4, 4) = Some 2
   \<and> executeShieldBash levelPass squire brute [squire, brute, guardCrag]
       = ([squire, brute\<lparr>hp := 7, position := (4, 4), stunned := True\<rparr>, guardCrag], True)"
  by (simp add: bash_eval bash_demo squire_def brute_def guardCrag_def)




text \<open>The struck unit lands on a cell that another unit holds.\<close>

lemma bash_stacks_units:
  "executeShieldBash levelPass knight bearer [knight, bearer, guard2, guard3]
     = ([knight, bearer\<lparr>hp := 7, position := (4, 2), stunned := True\<rparr>,
         guard2\<lparr>hp := 7, position := (6, 2)\<rparr>, guard3], True)"
  by (simp add: bash_eval bash_demo guard2_def guard3_def)




section \<open>Turn controller (handleTileClick, enemy phase)\<close>

lemma rosterAtRest_onBoard: "rosterAtRest L us \<Longrightarrow> rosterOnBoard L us"
  by (simp add: rosterAtRest_def rosterOnBoard_def)

lemma set_splice1_subset: "set (splice1 i xs) \<subseteq> set xs"
  by (auto simp: splice1_def dest: in_set_takeD in_set_dropD)

lemma rosterOnBoard_alive: "rosterOnBoard L us \<Longrightarrow> rosterOnBoard L (alive us)"
  by (simp add: rosterOnBoard_def alive_def)

lemma rosterOnBoard_splice1: "rosterOnBoard L us \<Longrightarrow> rosterOnBoard L (splice1 i us)"
  using set_splice1_subset [of i us] by (auto simp: rosterOnBoard_def)

lemma rosterOnBoard_update:
  "rosterOnBoard L us \<Longrightarrow> onBoard L y \<Longrightarrow> rosterOnBoard L (us[i := y])"
  by (auto simp: rosterOnBoard_def dest!: set_update_subset_insert [THEN subsetD])

lemma onBoard_moved [simp]:
  "onBoard L (u\<lparr>hp := h, position := p, stunned := b\<rparr>)
     \<longleftrightarrow> inBounds L p \<and> mapSetup L (fst p) (snd p) \<noteq> water"
  "onBoard L (u\<lparr>hp := h, position := p\<rparr>)
     \<longleftrightarrow> inBounds L p \<and> mapSetup L (fst p) (snd p) \<noteq> water"
  by (simp_all add: onBoard_def)

lemma isOutOfBounds_iff: "isOutOfBounds L p \<longleftrightarrow> \<not> inBounds L p"
  by (auto simp: isOutOfBounds_def inBounds_def)

text \<open>The cells of the knockback path lie between the target and the destination.\<close>

lemma path_inBounds:
  assumes "inBounds L (position target)" "inBounds L (pushPosOf attacker target)"
    and "c \<in> set (getKnockbackPath (position target) (pushPosOf attacker target))"
  shows "inBounds L c"
proof -
  have between: "(0 \<le> t \<and> t < n \<and> 0 \<le> t + d * 2 \<and> t + d * 2 < n)
      \<Longrightarrow> 0 \<le> t + sgn d * i \<and> t + sgn d * i < n" if "i = 1 \<or> i = 2" for t d n i :: int
    using that by (auto simp: sgn_if)
  from assms(3)
  have "c = (fst (position target) + sgn (fst (position target) - fst (position attacker)) * 1,
             snd (position target) + sgn (snd (position target) - snd (position attacker)) * 1)
      \<or> c = (fst (position target) + sgn (fst (position target) - fst (position attacker)) * 2,
               snd (position target) + sgn (snd (position target) - snd (position attacker)) * 2)"
    unfolding getKnockbackPath_push by auto
  then obtain i :: int where i: "i = 1 \<or> i = 2"
    and c: "c = (fst (position target) + sgn (fst (position target) - fst (position attacker)) * i,
                 snd (position target) + sgn (snd (position target) - snd (position attacker)) * i)"
    by blast
  show ?thesis
    using assms(1,2) between [OF i, of "fst (position target)" "gridSize L"
        "fst (position target) - fst (position attacker)"]
      between [OF i, of "snd (position target)" "gridSize L"
        "snd (position target) - snd (position attacker)"]
    unfolding c inBounds_def pushPosOf_def Let_def by simp
qed

lemma collisionPoint_in_path:
  "collisionPointOf L us target push = Some cp
     \<Longrightarrow> cp \<in> set (getKnockbackPath (position target) push) \<and> collides L us target cp"
  by (auto simp: collisionPointOf_def find_Some_iff)

lemma resolveUnitCollision_onBoard:
  assumes r: "rosterOnBoard L us" and ti: "ti < length us" and hi: "hi < length us"
  shows "rosterOnBoard L (fst (resolveUnitCollision L target us ti (us ! ti) cp dx dy hi))"
proof -
  have h: "onBoard L (us ! hi)" using r hi by (simp add: rosterOnBoard_def)
  then have hb: "inBounds L (position (us ! hi))"
    "mapSetup L (fst (position (us ! hi))) (snd (position (us ! hi))) \<noteq> water"
    by (simp_all add: onBoard_def)
  let ?sw = "us[ti := (us ! ti)\<lparr>hp := hp (us ! ti) - 1, position := position (us ! hi), stunned := True\<rparr>]"
  have sw: "rosterOnBoard L ?sw"
    using r hb by (intro rosterOnBoard_update) simp_all
  show ?thesis
    using sw hb rosterOnBoard_splice1 [OF sw, of hi]
    by (auto simp: resolveUnitCollision_def Let_def isOutOfBounds_iff intro!: rosterOnBoard_update)
qed

lemma executeShieldBash_onBoard:
  assumes r: "rosterOnBoard L prev" and t: "inBounds L (position target)"
  shows "rosterOnBoard L (fst (executeShieldBash L attacker target prev))"
proof (cases "findIndex (\<lambda>u. uid u = uid target) prev")
  case None
  then show ?thesis using r by (simp add: executeShieldBash_def Let_def rosterOnBoard_alive)
next
  case (Some ti)
  then have til: "ti < length prev" using findIndex_Some by blast
  let ?tu = "prev ! ti"
  let ?push = "pushPosOf attacker target"
  show ?thesis
  proof (cases "hp ?tu \<le> 0 \<or> isOutOfBounds L ?push")
    case True
    then show ?thesis
      using r Some
      by (auto simp: executeShieldBash_def Let_def rosterOnBoard_alive rosterOnBoard_splice1)
  next
    case False
    then have pb: "inBounds L ?push" by (simp add: isOutOfBounds_iff)
    show ?thesis
    proof (cases "collisionPointOf L prev target ?push")
      case None
      have "rosterOnBoard L (fst (resolveFreePath L prev ti ?tu ?push))"
        using r pb
        by (auto simp: resolveFreePath_def Let_def rosterOnBoard_splice1 intro!: rosterOnBoard_update)
      then show ?thesis
        using Some False None by (simp add: executeShieldBash_def Let_def rosterOnBoard_alive)
    next
      case (Some cp)
      from collisionPoint_in_path [OF Some] have cpb: "inBounds L cp" and col: "collides L prev target cp"
        using path_inBounds [OF t pb] by auto
      have "rosterOnBoard L (fst (resolveCollision L target prev ti ?tu cp dx dy))" for dx dy
      proof (cases "mapSetup L (fst cp) (snd cp) = mountain")
        case True
        then show ?thesis
          using r cpb by (auto simp: resolveCollision_def Let_def intro!: rosterOnBoard_update)
      next
        case False
        with Some obtain hi where hi: "hitUnitIndexOf prev target cp = Some hi"
          using collisionPoint_unit by blast
        have hil: "hi < length prev" using hitUnitIndex_facts(1) [OF hi] .
        show ?thesis
          using False hi resolveUnitCollision_onBoard [OF r til hil]
          by (simp add: resolveCollision_def Let_def)
      qed
      then show ?thesis
        using \<open>findIndex (\<lambda>u. uid u = uid target) prev = Some ti\<close> False Some
        by (simp add: executeShieldBash_def Let_def rosterOnBoard_alive)
    qed
  qed
qed

lemma executeAttack_positions:
  "u \<in> set (executeAttack attacker target prev) \<Longrightarrow> \<exists>v\<in>set prev. position u = position v"
  by (auto simp: executeAttack_def Let_def)

lemma executeAttack_onBoard:
  "rosterOnBoard L prev \<Longrightarrow> rosterOnBoard L (executeAttack attacker target prev)"
  by (auto simp: rosterOnBoard_def onBoard_def dest!: executeAttack_positions)

lemma executeAttack_atRest:
  "rosterAtRest L prev \<Longrightarrow> rosterAtRest L (executeAttack attacker target prev)"
  by (auto simp: rosterAtRest_def onBoard_def offMountain_def dest!: executeAttack_positions)

lemma foldC_inv:
  assumes "P s"
    and "\<And>s x. x \<in> set xs \<Longrightarrow> P s \<Longrightarrow> \<exists>s'. f s x = Some (Inr s') \<and> P s'"
  shows "\<exists>r. foldC f s xs = Some (Inr r) \<and> P r"
  using assms
proof (induction xs arbitrary: s)
  case Nil
  then show ?case by (simp add: returnC_def)
next
  case (Cons x xs)
  from Cons.prems(2) [of x s] Cons.prems(1)
  obtain s' where s': "f s x = Some (Inr s')" "P s'" by auto
  have "\<exists>r. foldC f s' xs = Some (Inr r) \<and> P r"
    using s'(2) Cons.prems(2) by (intro Cons.IH) auto
  then show ?case by (simp add: s'(1) bindC_def)
qed

lemma getValidMoves_cells:
  assumes "getValidMoves L us u = Inr moves" "c \<in> set moves"
  shows "enterable L us c \<and> c \<noteq> position u"
proof -
  from assms obtain nodes n where n: "validNodes L us u = Inr nodes" "n \<in> set nodes" "c = fst n"
    by (auto simp: getValidMoves_def split: sum.splits)
  then have "goodNode L us u n" by (simp add: validNodes_good)
  then show ?thesis by (simp add: goodNode_def n(3))
qed

lemma enterable_restCell: "enterable L us c \<Longrightarrow> restCell L c"
  by (simp add: enterable_def restCell_def)

lemma getValidTargets_returns:
  assumes "inBounds L (position attacker)" "\<forall>u\<in>set allUnits. inBounds L (position u)"
  shows "\<exists>targets. getValidTargets L attacker allUnits = Some (Inr targets)"
proof -
  have "\<exists>r. foldC (\<lambda>targets target.
        if team target = team attacker then returnC targets
        else let dist = manhattan (position attacker) (position target) in
          if dist \<le> attackRange attacker
          then bindC (hasLineOfSight L (position attacker) (position target))
                 (\<lambda>los. returnC (if los then targets @ [position target] else targets))
          else returnC targets) [] allUnits = Some (Inr r) \<and> True"
  proof (rule foldC_inv)
    fix s x assume "x \<in> set allUnits"
    then have "inBounds L (position x)" using assms(2) by blast
    from hasLineOfSight_inBounds [OF assms(1) this]
    obtain v where "hasLineOfSight L (position attacker) (position x) = Some (Inr v)" by blast
    then show "\<exists>s'. (if team x = team attacker then returnC s
        else let dist = manhattan (position attacker) (position x) in
          if dist \<le> attackRange attacker
          then bindC (hasLineOfSight L (position attacker) (position x))
                 (\<lambda>los. returnC (if los then s @ [position x] else s))
          else returnC s) = Some (Inr s') \<and> True"
      by (simp add: returnC_def bindC_def Let_def)
  qed simp
  then show ?thesis by (simp add: getValidTargets_def)
qed

lemma hasPos_mem: "hasPos ps p \<longleftrightarrow> p \<in> set ps"
  by (auto simp: hasPos_def prod_eq_iff)

lemma tileUnit_mem: "tileUnit s p = Some u \<Longrightarrow> u \<in> set (units s) \<and> position u = p"
  by (auto simp: tileUnit_def find_Some_iff prod_eq_iff)

lemma find_mem: "find P xs = Some x \<Longrightarrow> x \<in> set xs \<and> P x"
  by (auto simp: find_Some_iff)

lemma moved_roster:
  assumes "rosterOnBoard L us" "restCell L p"
  shows "rosterOnBoard L (map (\<lambda>u. if uid u = i then u\<lparr>position := p\<rparr> else u) us)"
  using assms by (auto simp: rosterOnBoard_def onBoard_def restCell_def)

lemma moved_roster_atRest:
  assumes "rosterAtRest L us" "restCell L p"
  shows "rosterAtRest L (map (\<lambda>u. if uid u = i then u\<lparr>position := p\<rparr> else u) us)"
  using assms by (auto simp: rosterAtRest_def onBoard_def offMountain_def restCell_def)

lemma moveClick_ok:
  assumes ok: "sessionOk L s" and p: "p \<in> set (validMoves s)" and sel: "selectedUnitId s = Some i"
  shows "\<exists>s'. moveClick L s i p = Some (Inr s') \<and> sessionOk L s'
           \<and> units s' = map (\<lambda>u. if uid u = i then u\<lparr>position := p\<rparr> else u) (units s)"
proof -
  let ?new = "map (\<lambda>u. if uid u = i then u\<lparr>position := p\<rparr> else u) (units s)"
  have rc: "restCell L p" using ok p by (simp add: sessionOk_def)
  have nb: "rosterOnBoard L ?new" using ok rc by (intro moved_roster) (simp add: sessionOk_def)
  from ok p sel obtain u where u: "u \<in> set (units s)" "uid u = i"
    by (auto simp: sessionOk_def)
  then have "\<exists>v\<in>set ?new. uid v = i" by (intro bexI [of _ "u\<lparr>position := p\<rparr>"]) auto
  then obtain m where m: "find (\<lambda>u. uid u = i) ?new = Some m"
    by (cases "find (\<lambda>u. uid u = i) ?new") (auto simp: find_None_iff)
  then have "m \<in> set ?new" by (auto dest: find_mem)
  then have mb: "inBounds L (position m)" using nb by (auto simp: rosterOnBoard_def onBoard_def)
  have "\<forall>u\<in>set ?new. inBounds L (position u)"
    using nb by (auto simp: rosterOnBoard_def onBoard_def)
  from getValidTargets_returns [OF mb this]
  obtain targets where t: "getValidTargets L m ?new = Some (Inr targets)" by blast
  show ?thesis
    using nb by (simp add: moveClick_def Let_def m t bindC_def returnC_def sessionOk_def)
qed

lemma selectClick_ok:
  assumes ok: "sessionOk L s" and turn: "currentTurn s = TurnPlayer"
  shows "\<exists>s'. selectClick L s p = Some (Inr s') \<and> sessionOk L s' \<and> units s' = units s"
proof (cases "tileUnit s p")
  case None
  then show ?thesis using ok by (auto simp: selectClick_def returnC_def sessionOk_def)
next
  case (Some tu)
  then have tu: "tu \<in> set (units s)" by (auto dest: tileUnit_mem)
  then have "inBounds L (position tu)" using ok by (auto simp: sessionOk_def rosterOnBoard_def onBoard_def)
  from getValidMoves_returns [OF this, of "units s"]
  obtain moves where m: "getValidMoves L (units s) tu = Inr moves" by blast
  have "\<forall>c\<in>set moves. restCell L c"
    using getValidMoves_cells [OF m] enterable_restCell by blast
  then show ?thesis
    using ok Some tu turn m
    by (auto simp: selectClick_def returnC_def sessionOk_def)
qed

lemma attackClick_ok:
  assumes ok: "sessionOk L s" and su: "su \<in> set (units s)" and hm: "hasMoved s"
  shows "sessionOk L (attackClick L s su p)
       \<and> (selectedAction s \<noteq> ActShieldBash \<longrightarrow> rosterAtRest L (units s)
            \<longrightarrow> rosterAtRest L (units (attackClick L s su p)))"
proof -
  have vm: "validMoves s = []" using ok hm by (auto simp: sessionOk_def)
  have r: "rosterOnBoard L (units s)" using ok by (simp add: sessionOk_def)
  show ?thesis
  proof (cases "tileUnit s p")
    case None
    then show ?thesis using ok by (simp add: attackClick_def)
  next
    case (Some tu)
    then have "tu \<in> set (units s)" by (auto dest: tileUnit_mem)
    then have tb: "inBounds L (position tu)" using r by (auto simp: rosterOnBoard_def onBoard_def)
    show ?thesis
      using ok Some vm executeShieldBash_onBoard [OF r tb, of su] executeAttack_onBoard [OF r, of su tu]
        executeAttack_atRest [of L "units s" su tu]
      by (auto simp: attackClick_def resolveAttackClick_def Let_def sessionOk_def)
  qed
qed

lemma handleTileClick_ok:
  assumes ok: "sessionOk L s"
  shows "\<exists>s'. handleTileClick L s p = Some (Inr s') \<and> sessionOk L s'
       \<and> (selectedAction s \<noteq> ActShieldBash \<longrightarrow> rosterAtRest L (units s)
            \<longrightarrow> rosterAtRest L (units s'))"
proof (cases "currentTurn s = TurnPlayer")
  case False
  then show ?thesis using ok by (simp add: handleTileClick_def returnC_def)
next
  case True
  have mos: "\<exists>s'. moveOrSelectClick L s p = Some (Inr s') \<and> sessionOk L s'
       \<and> (rosterAtRest L (units s) \<longrightarrow> rosterAtRest L (units s'))"
  proof (cases "\<exists>i. selectedUnitId s = Some i \<and> i \<noteq> [] \<and> \<not> hasMoved s \<and> hasPos (validMoves s) p")
    case True
    then obtain i where i: "selectedUnitId s = Some i" "hasPos (validMoves s) p" "i \<noteq> []" "\<not> hasMoved s"
      by blast
    then have p: "p \<in> set (validMoves s)" by (simp add: hasPos_mem)
    from moveClick_ok [OF ok p i(1)] obtain s' where s': "moveClick L s i p = Some (Inr s')"
      "sessionOk L s'" "units s' = map (\<lambda>u. if uid u = i then u\<lparr>position := p\<rparr> else u) (units s)"
      by blast
    have "restCell L p" using ok p by (simp add: sessionOk_def)
    then have "rosterAtRest L (units s) \<longrightarrow> rosterAtRest L (units s')"
      unfolding s'(3) by (auto intro: moved_roster_atRest)
    then show ?thesis using i s' by (simp add: moveOrSelectClick_def)
  next
    case False
    from selectClick_ok [OF ok True, of p] obtain s' where
      "selectClick L s p = Some (Inr s')" "sessionOk L s'" "units s' = units s" by blast
    then show ?thesis using False by (auto simp: moveOrSelectClick_def split: option.splits)
  qed
  show ?thesis
  proof (cases "case selectedUnitId s of None \<Rightarrow> None | Some i \<Rightarrow> find (\<lambda>u. uid u = i) (units s)")
    case None
    then show ?thesis using True mos by (auto simp: handleTileClick_def Let_def)
  next
    case (Some su)
    then have su: "su \<in> set (units s)" by (auto split: option.splits dest: find_mem)
    show ?thesis
    proof (cases "hasMoved s")
      case hm: True
      from attackClick_ok [OF ok su hm, of p] show ?thesis
        using True Some hm by (simp add: handleTileClick_def Let_def returnC_def)
    next
      case False
      then show ?thesis using True Some mos by (auto simp: handleTileClick_def Let_def)
    qed
  qed
qed

lemma foldl_pick_mem:
  fixes f :: "Position \<times> int option \<Rightarrow> Position \<Rightarrow> Position \<times> int option"
  assumes "\<And>b pos. f b pos = b \<or> fst (f b pos) = pos"
  shows "fst (foldl f bm moves) = fst bm \<or> fst (foldl f bm moves) \<in> set moves"
proof (induction moves arbitrary: bm)
  case Nil
  then show ?case by simp
next
  case (Cons m ms)
  have "fst (foldl f (f bm m) ms) = fst (f bm m) \<or> fst (foldl f (f bm m) ms) \<in> set ms"
    by (rule Cons.IH)
  moreover have "f bm m = bm \<or> fst (f bm m) = m" by (rule assms)
  ultimately show ?case by auto
qed

lemma chooseMove_mem:
  "chooseMove newUnits enemy player moves = position enemy
   \<or> chooseMove newUnits enemy player moves \<in> set moves"
  unfolding chooseMove_def
  by (rule foldl_pick_mem [where bm = "(position enemy, None)", simplified]) (simp add: Let_def)

lemma enemyMove_ok:
  assumes su: "rosterOnBoard L stateUnits" and e: "enemy \<in> set stateUnits"
    and pl: "inBounds L (position player)" and nu: "rosterOnBoard L newUnits"
  shows "\<exists>new'. enemyMove L stateUnits player newUnits enemy = Some (Inr new')
       \<and> rosterOnBoard L new' \<and> map uid new' = map uid newUnits \<and> map hp new' = map hp newUnits
       \<and> map team new' = map team newUnits
       \<and> (rosterAtRest L stateUnits \<longrightarrow> rosterAtRest L newUnits \<longrightarrow> rosterAtRest L new')"
proof (cases "stunned enemy")
  case True
  then show ?thesis using nu by (simp add: enemyMove_def returnC_def)
next
  case False
  have eb: "onBoard L enemy" using su e by (simp add: rosterOnBoard_def)
  then have ebi: "inBounds L (position enemy)" by (simp add: onBoard_def)
  from hasLineOfSight_inBounds [OF ebi pl]
  obtain los where los: "hasLineOfSight L (position enemy) (position player) = Some (Inr los)" by blast
  from getValidMoves_returns [OF ebi, of stateUnits]
  obtain moves where m: "getValidMoves L stateUnits enemy = Inr moves" by blast
  let ?best = "chooseMove newUnits enemy player moves"
  let ?new = "map (\<lambda>u. if uid u = uid enemy then u\<lparr>position := ?best\<rparr> else u) newUnits"
  have cells: "\<forall>c\<in>set moves. restCell L c"
    using getValidMoves_cells [OF m] enterable_restCell by blast
  have best: "inBounds L ?best \<and> mapSetup L (fst ?best) (snd ?best) \<noteq> water"
    using chooseMove_mem [of newUnits enemy player moves] eb cells
    by (auto simp: onBoard_def restCell_def)
  have best_rest: "mapSetup L (fst ?best) (snd ?best) \<noteq> mountain" if "rosterAtRest L stateUnits"
    using chooseMove_mem [of newUnits enemy player moves] that e cells
    by (auto simp: rosterAtRest_def offMountain_def restCell_def)
  have n1: "rosterOnBoard L ?new"
    using nu best by (auto simp: rosterOnBoard_def onBoard_def)
  have n2: "map uid ?new = map uid newUnits" "map hp ?new = map hp newUnits"
    "map team ?new = map team newUnits"
    by (simp_all add: comp_def)
  have n3: "rosterAtRest L stateUnits \<longrightarrow> rosterAtRest L newUnits \<longrightarrow> rosterAtRest L ?new"
    using best best_rest by (auto simp: rosterAtRest_def onBoard_def offMountain_def)
  have move: "enemyMove L stateUnits player newUnits enemy = Some (Inr ?new)
      \<or> enemyMove L stateUnits player newUnits enemy = Some (Inr newUnits)"
    using False by (simp add: enemyMove_def Let_def los m bindC_def returnC_def)
  then show ?thesis using n1 n2 n3 nu by auto
qed

lemma foldC_enemyAttack:
  assumes pl: "inBounds L (position player)" and nu: "rosterOnBoard L newUnits"
    and ids: "\<forall>e\<in>set order. uid e \<in> set (map uid newUnits)"
  shows "foldC (enemyAttack L player newUnits) h order
       = Some (Inr (h - sum_list (map damage (filter (canHit L player) (updatedOf newUnits order)))))"
  using ids
proof (induction order arbitrary: h)
  case Nil
  then show ?case by (simp add: returnC_def updatedOf_def map_filter_simps)
next
  case (Cons e es)
  have ih: "foldC (enemyAttack L player newUnits) h' es
       = Some (Inr (h' - sum_list (map damage (filter (canHit L player) (updatedOf newUnits es)))))" for h'
    using Cons.prems by (intro Cons.IH) simp
  show ?case
  proof (cases "stunned e")
    case True
    then have step: "enemyAttack L player newUnits h e = Some (Inr h)"
      by (simp add: enemyAttack_def returnC_def)
    have u: "updatedOf newUnits (e # es) = updatedOf newUnits es"
      using True by (simp add: updatedOf_def map_filter_simps)
    show ?thesis by (simp add: step bindC_def ih u)
  next
    case False
    from Cons.prems have "\<exists>u\<in>set newUnits. uid u = uid e" by auto
    then obtain upd where upd: "find (\<lambda>u. uid u = uid e) newUnits = Some upd"
      by (cases "find (\<lambda>u. uid u = uid e) newUnits") (auto simp: find_None_iff)
    then have "upd \<in> set newUnits" by (auto dest: find_mem)
    then have "inBounds L (position upd)" using nu by (auto simp: rosterOnBoard_def onBoard_def)
    from hasLineOfSight_inBounds [OF this pl]
    obtain los where los: "hasLineOfSight L (position upd) (position player) = Some (Inr los)" by blast
    have u: "updatedOf newUnits (e # es) = upd # updatedOf newUnits es"
      using False upd by (simp add: updatedOf_def map_filter_simps)
    have step: "enemyAttack L player newUnits h e
        = Some (Inr (if canHit L player upd then h - damage upd else h))"
      using False by (simp add: enemyAttack_def upd Let_def los returnC_def bindC_def canHit_def)
    show ?thesis by (simp add: step bindC_def ih u)
  qed
qed

lemma enemyPhase_unfold:
  assumes pl: "find (\<lambda>u. team u = Player) (units s) = Some pl"
    and en: "filter (\<lambda>u. team u = Enemy) (units s) \<noteq> []"
  shows "enemyPhase L s =
        bindC (foldC (enemyMove L (units s) pl) (units s)
                 (sort_key (\<lambda>e. manhattan (position e) (position pl))
                    (filter (\<lambda>u. team u = Enemy) (units s)))) (\<lambda>newUnits.
        bindC (foldC (enemyAttack L pl newUnits) (hp pl)
                 (sort_key (\<lambda>e. manhattan (position e) (position pl))
                    (filter (\<lambda>u. team u = Enemy) (units s)))) (\<lambda>playerHp.
          returnC (s\<lparr>units := filter (\<lambda>u. hp u > 0)
                         (map (\<lambda>u. if team u = Player then u\<lparr>hp := playerHp\<rparr> else u) newUnits),
                     currentTurn := TurnPlayer\<rparr>)))"
  unfolding enemyPhase_def Let_def pl option.case
  using en by (simp only: length_greater_0_conv if_True not_False_eq_True simp_thms)

lemma movePass_ok:
  assumes r: "rosterOnBoard L us" and pl: "inBounds L (position player)"
    and ord: "set order \<subseteq> set us"
  shows "\<exists>moved. foldC (enemyMove L us player) us order = Some (Inr moved)
       \<and> (rosterOnBoard L moved \<and> map uid moved = map uid us \<and> map hp moved = map hp us
          \<and> map team moved = map team us
          \<and> (rosterAtRest L us \<longrightarrow> rosterAtRest L moved))"
proof (rule foldC_inv)
  show "rosterOnBoard L us \<and> map uid us = map uid us \<and> map hp us = map hp us
      \<and> map team us = map team us \<and> (rosterAtRest L us \<longrightarrow> rosterAtRest L us)"
    using r by simp
next
  fix nu e
  assume e: "e \<in> set order"
    and p: "rosterOnBoard L nu \<and> map uid nu = map uid us \<and> map hp nu = map hp us
      \<and> map team nu = map team us \<and> (rosterAtRest L us \<longrightarrow> rosterAtRest L nu)"
  have "e \<in> set us" using e ord by blast
  from enemyMove_ok [OF r this pl, of nu] p
  show "\<exists>s'. enemyMove L us player nu e = Some (Inr s')
      \<and> (rosterOnBoard L s' \<and> map uid s' = map uid us \<and> map hp s' = map hp us
         \<and> map team s' = map team us \<and> (rosterAtRest L us \<longrightarrow> rosterAtRest L s'))"
    by auto
qed

lemma final_roster_positions:
  "u \<in> set (filter (\<lambda>u. hp u > 0) (map (\<lambda>u. if team u = Player then u\<lparr>hp := h\<rparr> else u) moved))
     \<Longrightarrow> \<exists>v\<in>set moved. position u = position v"
  by auto

lemma enemyPhase_formula:
  fixes L s pl
  defines "enemies \<equiv> filter (\<lambda>u. team u = Enemy) (units s)"
  defines "order \<equiv> sort_key (\<lambda>e. manhattan (position e) (position pl)) enemies"
  assumes r: "rosterOnBoard L (units s)"
    and pl: "find (\<lambda>u. team u = Player) (units s) = Some pl"
    and en: "enemies \<noteq> []"
  shows "\<exists>moved. foldC (enemyMove L (units s) pl) (units s) order = Some (Inr moved)
          \<and> rosterOnBoard L moved \<and> (rosterAtRest L (units s) \<longrightarrow> rosterAtRest L moved)
          \<and> map hp moved = map hp (units s) \<and> map uid moved = map uid (units s)
          \<and> enemyPhase L s = Some (Inr (s\<lparr>units := filter (\<lambda>u. hp u > 0)
                 (map (\<lambda>u. if team u = Player
                            then u\<lparr>hp := hp pl - sum_list (map damage
                                   (filter (canHit L pl) (updatedOf moved order)))\<rparr>
                            else u) moved),
               currentTurn := TurnPlayer\<rparr>))"
proof -
  have plm: "pl \<in> set (units s)" using pl by (auto dest: find_mem)
  then have plb: "inBounds L (position pl)" using r by (auto simp: rosterOnBoard_def onBoard_def)
  have ord: "set order \<subseteq> set (units s)" by (auto simp: order_def enemies_def)
  from movePass_ok [OF r plb ord] obtain moved where
    mv: "foldC (enemyMove L (units s) pl) (units s) order = Some (Inr moved)"
    and m: "rosterOnBoard L moved" "map uid moved = map uid (units s)" "map hp moved = map hp (units s)"
      "rosterAtRest L (units s) \<longrightarrow> rosterAtRest L moved"
    by blast
  have ids: "\<forall>e\<in>set order. uid e \<in> set (map uid moved)"
    using ord by (auto simp: m(2))
  note at = foldC_enemyAttack [OF plb m(1) ids, of "hp pl"]
  have "enemyPhase L s = Some (Inr (s\<lparr>units := filter (\<lambda>u. hp u > 0)
                 (map (\<lambda>u. if team u = Player
                            then u\<lparr>hp := hp pl - sum_list (map damage
                                   (filter (canHit L pl) (updatedOf moved order)))\<rparr>
                            else u) moved),
               currentTurn := TurnPlayer\<rparr>))"
  proof -
    have "enemyPhase L s =
        bindC (foldC (enemyMove L (units s) pl) (units s) order) (\<lambda>newUnits.
        bindC (foldC (enemyAttack L pl newUnits) (hp pl) order) (\<lambda>playerHp.
          returnC (s\<lparr>units := filter (\<lambda>u. hp u > 0)
                         (map (\<lambda>u. if team u = Player then u\<lparr>hp := playerHp\<rparr> else u) newUnits),
                     currentTurn := TurnPlayer\<rparr>)))"
      using enemyPhase_unfold [OF pl en [unfolded enemies_def], of L]
      unfolding order_def enemies_def .
    also have "\<dots> = bindC (foldC (enemyAttack L pl moved) (hp pl) order) (\<lambda>playerHp.
          returnC (s\<lparr>units := filter (\<lambda>u. hp u > 0)
                         (map (\<lambda>u. if team u = Player then u\<lparr>hp := playerHp\<rparr> else u) moved),
                     currentTurn := TurnPlayer\<rparr>))"
      by (simp only: mv bindC_def option.case sum.case)
    also have "\<dots> = returnC (s\<lparr>units := filter (\<lambda>u. hp u > 0)
                 (map (\<lambda>u. if team u = Player
                            then u\<lparr>hp := hp pl - sum_list (map damage
                                   (filter (canHit L pl) (updatedOf moved order)))\<rparr>
                            else u) moved),
               currentTurn := TurnPlayer\<rparr>)"
      by (simp only: at bindC_def option.case sum.case)
    finally show ?thesis by (simp only: returnC_def)
  qed
  then show ?thesis using mv m by blast
qed

lemma enemyTurn_ok:
  assumes ok: "sessionOk L s"
  shows "\<exists>s'. enemyTurn L s = Some (Inr s') \<and> sessionOk L s'
       \<and> (rosterAtRest L (units s) \<longrightarrow> rosterAtRest L (units s'))"
proof (cases "currentTurn s = TurnEnemy \<and> gameState s = playing")
  case False
  then show ?thesis using ok by (auto simp: enemyTurn_def returnC_def)
next
  case True
  then have vm: "validMoves s = []" using ok by (auto simp: sessionOk_def)
  have r: "rosterOnBoard L (units s)" using ok by (simp add: sessionOk_def)
  have turn: "sessionOk L (s\<lparr>currentTurn := TurnPlayer\<rparr>)"
    using ok vm by (simp add: sessionOk_def)
  show ?thesis
  proof (cases "find (\<lambda>u. team u = Player) (units s)")
    case None
    then show ?thesis using True turn by (simp add: enemyTurn_def enemyPhase_def Let_def returnC_def)
  next
    case (Some pl)
    show ?thesis
    proof (cases "filter (\<lambda>u. team u = Enemy) (units s) = []")
      case e: True
      then show ?thesis
        using True Some turn by (simp add: enemyTurn_def enemyPhase_def Let_def returnC_def)
    next
      case e: False
      from enemyPhase_formula [OF r Some e] obtain moved h where
        m: "rosterOnBoard L moved" "rosterAtRest L (units s) \<longrightarrow> rosterAtRest L moved"
        and ph: "enemyPhase L s = Some (Inr (s\<lparr>units := filter (\<lambda>u. hp u > 0)
                 (map (\<lambda>u. if team u = Player then u\<lparr>hp := h\<rparr> else u) moved),
               currentTurn := TurnPlayer\<rparr>))"
        by blast
      let ?fin = "filter (\<lambda>u. hp u > 0) (map (\<lambda>u. if team u = Player then u\<lparr>hp := h\<rparr> else u) moved)"
      have f1: "rosterOnBoard L ?fin"
        unfolding rosterOnBoard_def
      proof
        fix u assume "u \<in> set ?fin"
        from final_roster_positions [OF this] obtain v where "v \<in> set moved" "position u = position v"
          by blast
        then show "onBoard L u" using m(1) by (auto simp: rosterOnBoard_def onBoard_def)
      qed
      have f2: "rosterAtRest L ?fin" if a: "rosterAtRest L (units s)"
        unfolding rosterAtRest_def
      proof
        fix u assume "u \<in> set ?fin"
        from final_roster_positions [OF this] obtain v where "v \<in> set moved" "position u = position v"
          by blast
        moreover have "rosterAtRest L moved" using m(2) a by blast
        ultimately show "onBoard L u \<and> offMountain L u"
          by (auto simp: rosterAtRest_def onBoard_def offMountain_def)
      qed
      have e: "enemyTurn L s = Some (Inr (s\<lparr>units := ?fin, currentTurn := TurnPlayer\<rparr>))"
        using True by (simp add: enemyTurn_def ph)
      have "sessionOk L (s\<lparr>units := ?fin, currentTurn := TurnPlayer\<rparr>)"
        using f1 vm by (simp add: sessionOk_def)
      then show ?thesis
        using e f2 by simp
    qed
  qed
qed

lemma clearStun_ok:
  assumes "sessionOk L s"
  shows "sessionOk L (clearStun s)"
proof (cases "currentTurn s = TurnPlayer \<and> gameState s = playing")
  case False
  then have "clearStun s = s" by (auto simp: clearStun_def)
  then show ?thesis using assms by simp
next
  case True
  let ?us = "map (\<lambda>u. u\<lparr>stunned := False\<rparr>) (units s)"
  have "rosterOnBoard L ?us"
    using assms by (auto simp: sessionOk_def rosterOnBoard_def onBoard_def)
  moreover have "(\<exists>u\<in>set (units s). selectedUnitId s = Some (uid u))
      \<Longrightarrow> (\<exists>u\<in>set ?us. selectedUnitId s = Some (uid u))"
    by (auto intro!: bexI [of _ "u\<lparr>stunned := False\<rparr>" for u])
  ultimately show ?thesis
    using assms True unfolding clearStun_def sessionOk_def by simp
qed

lemma checkOutcome_ok:
  assumes "sessionOk L s"
  shows "sessionOk L (checkOutcome s)"
proof -
  have "checkOutcome s = s \<or> (\<exists>g. checkOutcome s = s\<lparr>gameState := g\<rparr>)"
    unfolding checkOutcome_def Let_def by (auto intro: exI)
  then show ?thesis using assms by (auto simp: sessionOk_def)
qed

lemma keepsOffMountain_refl: "keepsOffMountain L us us"
  by (auto simp: keepsOffMountain_def)

lemma keepsOffMountain_atRest:
  assumes "keepsOffMountain L before after" "rosterOnBoard L after" "rosterAtRest L before"
  shows "rosterAtRest L after"
  using assms
  by (fastforce simp: keepsOffMountain_def rosterOnBoard_def rosterAtRest_def offMountain_def)

lemma executeAttack_units:
  "u \<in> set (executeAttack attacker target prev)
     \<Longrightarrow> \<exists>v\<in>set prev. uid v = uid u \<and> position v = position u"
  by (auto simp: executeAttack_def Let_def)

lemma executeAttack_keeps: "keepsOffMountain L prev (executeAttack attacker target prev)"
  unfolding keepsOffMountain_def using executeAttack_units by blast

lemma moved_roster_keeps:
  assumes "restCell L p"
  shows "keepsOffMountain L us (map (\<lambda>u. if uid u = i then u\<lparr>position := p\<rparr> else u) us)"
  using assms by (auto simp: keepsOffMountain_def offMountain_def restCell_def)

lemma attackClick_keeps:
  assumes "selectedAction s \<noteq> ActShieldBash"
  shows "keepsOffMountain L (units s) (units (attackClick L s su p))"
  using assms executeAttack_keeps [of L "units s" su]
  by (auto simp: attackClick_def resolveAttackClick_def Let_def keepsOffMountain_refl
      split: option.splits)

lemma handleTileClick_keeps:
  assumes ok: "sessionOk L s" and nb: "hasMoved s \<longrightarrow> selectedAction s \<noteq> ActShieldBash"
    and r: "handleTileClick L s p = Some (Inr s')"
  shows "keepsOffMountain L (units s) (units s')"
proof (cases "currentTurn s = TurnPlayer")
  case False
  then have "s' = s" using r by (simp add: handleTileClick_def returnC_def)
  then show ?thesis by (simp add: keepsOffMountain_refl)
next
  case True
  have mos: "keepsOffMountain L (units s) (units t)" if t: "moveOrSelectClick L s p = Some (Inr t)" for t
  proof (cases "\<exists>i. selectedUnitId s = Some i \<and> i \<noteq> [] \<and> \<not> hasMoved s \<and> hasPos (validMoves s) p")
    case True
    then obtain i where i: "selectedUnitId s = Some i" "hasPos (validMoves s) p" "i \<noteq> []" "\<not> hasMoved s"
      by blast
    then have p: "p \<in> set (validMoves s)" by (simp add: hasPos_mem)
    from moveClick_ok [OF ok p i(1)] obtain m where m: "moveClick L s i p = Some (Inr m)"
      "units m = map (\<lambda>u. if uid u = i then u\<lparr>position := p\<rparr> else u) (units s)"
      by blast
    have "t = m" using t i m(1) by (simp add: moveOrSelectClick_def)
    moreover have "restCell L p" using ok p by (simp add: sessionOk_def)
    ultimately show ?thesis using m(2) by (simp add: moved_roster_keeps)
  next
    case False
    from selectClick_ok [OF ok True, of p] obtain m where
      m: "selectClick L s p = Some (Inr m)" "units m = units s" by blast
    have "moveOrSelectClick L s p = selectClick L s p"
      using False by (auto simp: moveOrSelectClick_def split: option.splits)
    then have "t = m" using t m(1) by simp
    then show ?thesis using m(2) by (simp add: keepsOffMountain_refl)
  qed
  show ?thesis
  proof (cases "case selectedUnitId s of None \<Rightarrow> None | Some i \<Rightarrow> find (\<lambda>u. uid u = i) (units s)")
    case None
    then have "moveOrSelectClick L s p = Some (Inr s')"
      using True r by (simp add: handleTileClick_def Let_def)
    then show ?thesis by (rule mos)
  next
    case (Some su)
    show ?thesis
    proof (cases "hasMoved s")
      case hm: True
      then have "s' = attackClick L s su p"
        using True Some r by (simp add: handleTileClick_def Let_def returnC_def)
      then show ?thesis using attackClick_keeps [of s L su p] nb hm by simp
    next
      case False
      then have "moveOrSelectClick L s p = Some (Inr s')"
        using True Some r by (simp add: handleTileClick_def Let_def)
      then show ?thesis by (rule mos)
    qed
  qed
qed

lemma enemyMove_keeps:
  assumes e: "enemy \<in> set stateUnits"
    and k: "keepsOffMountain L stateUnits newUnits"
    and r: "enemyMove L stateUnits player newUnits enemy = Some (Inr new')"
  shows "keepsOffMountain L stateUnits new'"
proof (cases "new' = newUnits")
  case True
  then show ?thesis using k by simp
next
  case False
  then obtain moves where m: "getValidMoves L stateUnits enemy = Inr moves"
    and n: "new' = map (\<lambda>u. if uid u = uid enemy
              then u\<lparr>position := chooseMove newUnits enemy player moves\<rparr> else u) newUnits"
    using r
    by (auto simp: enemyMove_def Let_def bindC_def returnC_def
        split: if_splits option.splits sum.splits)
  let ?best = "chooseMove newUnits enemy player moves"
  have cells: "\<forall>c\<in>set moves. restCell L c"
    using getValidMoves_cells [OF m] enterable_restCell by blast
  have best: "?best = position enemy \<or> mapSetup L (fst ?best) (snd ?best) \<noteq> mountain"
    using chooseMove_mem [of newUnits enemy player moves] cells
    by (auto simp: restCell_def)
  show ?thesis
    unfolding keepsOffMountain_def
  proof
    fix u assume "u \<in> set new'"
    then obtain w where w: "w \<in> set newUnits"
      "u = (if uid w = uid enemy then w\<lparr>position := ?best\<rparr> else w)"
      unfolding n by auto
    show "offMountain L u \<or> (\<exists>v\<in>set stateUnits. uid v = uid u \<and> position v = position u)"
    proof (cases "uid w = uid enemy")
      case True
      then have u: "uid u = uid enemy" "position u = ?best" using w(2) by simp_all
      from best show ?thesis
      proof
        assume "?best = position enemy"
        then show ?thesis using e u by auto
      next
        assume "mapSetup L (fst ?best) (snd ?best) \<noteq> mountain"
        then show ?thesis using u by (simp add: offMountain_def)
      qed
    next
      case False
      then have "u = w" using w(2) by simp
      then show ?thesis using k w(1) by (auto simp: keepsOffMountain_def)
    qed
  qed
qed

lemma foldC_returns_inv:
  assumes "P s" and "\<And>s x s'. x \<in> set xs \<Longrightarrow> P s \<Longrightarrow> f s x = Some (Inr s') \<Longrightarrow> P s'"
    and "foldC f s xs = Some (Inr r)"
  shows "P r"
  using assms
proof (induction xs arbitrary: s)
  case Nil
  then show ?case by (simp add: returnC_def)
next
  case (Cons x xs)
  from Cons.prems(3) obtain s' where s': "f s x = Some (Inr s')" "foldC f s' xs = Some (Inr r)"
    by (auto simp: bindC_def split: option.splits sum.splits)
  have "P s'" using Cons.prems(1,2) s'(1) by auto
  then show ?case using Cons.prems(2) s'(2) by (intro Cons.IH [of s']) auto
qed

lemma movePass_keeps:
  assumes ord: "set order \<subseteq> set us"
    and r: "foldC (enemyMove L us player) us order = Some (Inr moved)"
  shows "keepsOffMountain L us moved"
proof (rule foldC_returns_inv [where P = "keepsOffMountain L us", OF _ _ r])
  show "keepsOffMountain L us us" by (rule keepsOffMountain_refl)
next
  fix nu e new'
  assume "e \<in> set order" "keepsOffMountain L us nu" "enemyMove L us player nu e = Some (Inr new')"
  then show "keepsOffMountain L us new'" using ord enemyMove_keeps by blast
qed

lemma final_roster_units:
  "u \<in> set (filter (\<lambda>u. hp u > 0) (map (\<lambda>u. if team u = Player then u\<lparr>hp := h\<rparr> else u) moved))
     \<Longrightarrow> \<exists>v\<in>set moved. uid v = uid u \<and> position v = position u"
  by auto

lemma enemyTurn_keeps:
  assumes ok: "sessionOk L s" and r: "enemyTurn L s = Some (Inr s')"
  shows "keepsOffMountain L (units s) (units s')"
proof (cases "currentTurn s = TurnEnemy \<and> gameState s = playing")
  case False
  then have "s' = s" using r by (auto simp: enemyTurn_def returnC_def)
  then show ?thesis by (simp add: keepsOffMountain_refl)
next
  case True
  have ro: "rosterOnBoard L (units s)" using ok by (simp add: sessionOk_def)
  show ?thesis
  proof (cases "find (\<lambda>u. team u = Player) (units s)")
    case None
    then have "s' = s\<lparr>currentTurn := TurnPlayer\<rparr>"
      using True r by (simp add: enemyTurn_def enemyPhase_def Let_def returnC_def)
    then show ?thesis by (simp add: keepsOffMountain_refl)
  next
    case (Some pl)
    show ?thesis
    proof (cases "filter (\<lambda>u. team u = Enemy) (units s) = []")
      case e: True
      then have "s' = s\<lparr>currentTurn := TurnPlayer\<rparr>"
        using True Some r by (simp add: enemyTurn_def enemyPhase_def Let_def returnC_def)
      then show ?thesis by (simp add: keepsOffMountain_refl)
    next
      case e: False
      let ?order = "sort_key (\<lambda>e. manhattan (position e) (position pl))
          (filter (\<lambda>u. team u = Enemy) (units s))"
      from enemyPhase_formula [OF ro Some e] obtain moved h where
        mv: "foldC (enemyMove L (units s) pl) (units s) ?order = Some (Inr moved)"
        and ph: "enemyPhase L s = Some (Inr (s\<lparr>units := filter (\<lambda>u. hp u > 0)
                 (map (\<lambda>u. if team u = Player then u\<lparr>hp := h\<rparr> else u) moved),
               currentTurn := TurnPlayer\<rparr>))"
        by blast
      let ?fin = "filter (\<lambda>u. hp u > 0) (map (\<lambda>u. if team u = Player then u\<lparr>hp := h\<rparr> else u) moved)"
      have "s' = s\<lparr>units := ?fin, currentTurn := TurnPlayer\<rparr>"
        using True r ph by (simp add: enemyTurn_def)
      then have s': "units s' = ?fin" by simp
      have km: "keepsOffMountain L (units s) moved"
        by (rule movePass_keeps [OF _ mv]) auto
      show ?thesis
        unfolding s' keepsOffMountain_def
      proof
        fix u assume "u \<in> set ?fin"
        from final_roster_units [OF this] obtain w where w: "w \<in> set moved" "uid w = uid u"
          "position w = position u" by blast
        from km w(1) have "offMountain L w
            \<or> (\<exists>v\<in>set (units s). uid v = uid w \<and> position v = position w)"
          by (simp add: keepsOffMountain_def)
        then show "offMountain L u \<or> (\<exists>v\<in>set (units s). uid v = uid u \<and> position v = position u)"
          unfolding offMountain_def w(2,3) .
      qed
    qed
  qed
qed

text \<open>
  C3, as amended. \<open>sessionOk\<close> says that every unit of the roster stands inside the grid
  and not on water, and that the cached valid moves are cells inside the grid that are
  neither water nor mountain and belong to a selected unit of the roster. From such a
  session every tile click and every enemy turn returns a session that is \<open>sessionOk\<close>
  again, so no unit is ever kept on water or outside the grid: the bash removes the unit
  that would settle there. An enemy turn, a direct attack and every click but the one that
  resolves a bash (a click before the move of the turn, or with the attack selected) put no
  unit on a mountain: a unit that stands on a mountain afterwards stood on that cell before.
  A bash may leave a unit on a mountain.
\<close>

theorem C3_units_stay_on_board:
  assumes "sessionOk L s"
  shows "(\<exists>s'. handleTileClick L s p = Some (Inr s') \<and> sessionOk L s' \<and> rosterOnBoard L (units s')
            \<and> ((hasMoved s \<longrightarrow> selectedAction s \<noteq> ActShieldBash)
                 \<longrightarrow> keepsOffMountain L (units s) (units s')))
       \<and> (\<exists>s'. enemyTurn L s = Some (Inr s') \<and> sessionOk L s' \<and> rosterOnBoard L (units s')
            \<and> keepsOffMountain L (units s) (units s'))
       \<and> (\<forall>attacker target. target \<in> set (units s) \<longrightarrow>
            rosterOnBoard L (fst (executeShieldBash L attacker target (units s))))
       \<and> (\<forall>attacker target.
            rosterOnBoard L (executeAttack attacker target (units s))
            \<and> keepsOffMountain L (units s) (executeAttack attacker target (units s)))"
proof -
  have r: "rosterOnBoard L (units s)" using assms by (simp add: sessionOk_def)
  from handleTileClick_ok [OF assms, of p] obtain s1 where
    s1: "handleTileClick L s p = Some (Inr s1)" "sessionOk L s1" by blast
  have 1: "\<exists>s'. handleTileClick L s p = Some (Inr s') \<and> sessionOk L s' \<and> rosterOnBoard L (units s')
            \<and> ((hasMoved s \<longrightarrow> selectedAction s \<noteq> ActShieldBash)
                 \<longrightarrow> keepsOffMountain L (units s) (units s'))"
    using s1 handleTileClick_keeps [OF assms _ s1(1)] by (auto simp: sessionOk_def)
  from enemyTurn_ok [OF assms] obtain s2 where
    s2: "enemyTurn L s = Some (Inr s2)" "sessionOk L s2" by blast
  have 2: "\<exists>s'. enemyTurn L s = Some (Inr s') \<and> sessionOk L s' \<and> rosterOnBoard L (units s')
            \<and> keepsOffMountain L (units s) (units s')"
    using s2 enemyTurn_keeps [OF assms s2(1)] by (auto simp: sessionOk_def)
  have 3: "rosterOnBoard L (fst (executeShieldBash L attacker target (units s)))"
    if "target \<in> set (units s)" for attacker target
  proof -
    have "inBounds L (position target)" using r that by (auto simp: rosterOnBoard_def onBoard_def)
    then show ?thesis by (rule executeShieldBash_onBoard [OF r])
  qed
  have 4: "rosterOnBoard L (executeAttack attacker target (units s))
            \<and> keepsOffMountain L (units s) (executeAttack attacker target (units s))"
    for attacker target
    using executeAttack_onBoard [OF r] executeAttack_keeps by blast
  show ?thesis using 1 2 3 4 by blast
qed

lemma sessionPass_ok: "sessionOk levelPass sessionPass"
  by (simp add: sessionOk_def sessionPass_def rosterOnBoard_def onBoard_def inBounds_def
      squire_def brute_def mkUnit_def levelPass_def)

lemma sessionPass_atRest: "rosterAtRest levelPass (units sessionPass)"
  by (simp add: rosterAtRest_def sessionPass_def onBoard_def offMountain_def inBounds_def
      squire_def brute_def mkUnit_def levelPass_def)

lemma sessionPass_bash:
  "handleTileClick levelPass sessionPass (3, 4) =
     Some (Inr \<lparr> units = [squire, brute\<lparr>hp := 7, position := (4, 4), stunned := True\<rparr>],
       selectedUnitId = None, validMoves = [],
       currentTurn = TurnEnemy, hasMoved = False, validTargets = [],
       selectedAction = ActShieldBash, gameState = playing \<rparr>)"
  by (simp add: handleTileClick_def attackClick_def resolveAttackClick_def tileUnit_def hasPos_def
      returnC_def defaultAction_def sessionPass_def bash_eval squire_def brute_def mkUnit_def
      levelPass_def ARCHER_def SHIELD_def)

lemma sessionPass_bash_crag:
  "handleTileClick levelPass sessionPass (3, 4) = Some (Inr sessionCrag)"
  by (simp add: sessionPass_bash sessionCrag_def)

lemma sessionCrag_enemyTurn:
  "enemyTurn levelPass sessionCrag = Some (Inr (sessionCrag\<lparr>currentTurn := TurnPlayer\<rparr>))"
  by (simp add: enemyTurn_def enemyPhase_def sessionCrag_def squire_def brute_def mkUnit_def
      enemyMove_def enemyAttack_def returnC_def bindC_def Let_def)

theorem C3_on_board_witness:
  "sessionOk levelPass sessionPass
   \<and> handleTileClick levelPass sessionPass (3, 4) = Some (Inr sessionCrag)
   \<and> units sessionCrag = [squire, brute\<lparr>hp := 7, position := (4, 4), stunned := True\<rparr>]
   \<and> mapSetup levelPass 4 4 = mountain
   \<and> sessionOk levelPass sessionCrag \<and> rosterOnBoard levelPass (units sessionCrag)
   \<and> (\<exists>s'. enemyTurn levelPass sessionCrag = Some (Inr s') \<and> units s' = units sessionCrag
         \<and> sessionOk levelPass s' \<and> rosterOnBoard levelPass (units s')
         \<and> keepsOffMountain levelPass (units sessionCrag) (units s'))"
proof -
  note c = C3_units_stay_on_board [OF sessionPass_ok, of "(3, 4)"]
  from c have ok: "sessionOk levelPass sessionCrag" "rosterOnBoard levelPass (units sessionCrag)"
    unfolding sessionPass_bash_crag by auto
  note c2 = C3_units_stay_on_board [OF ok(1), of "(0, 0)"]
  from c2 obtain s' where s': "enemyTurn levelPass sessionCrag = Some (Inr s')"
    "sessionOk levelPass s'" "rosterOnBoard levelPass (units s')"
    "keepsOffMountain levelPass (units sessionCrag) (units s')"
    by blast
  have "units s' = units sessionCrag" using s'(1) by (auto simp: sessionCrag_enemyTurn)
  then have 2: "\<exists>s'. enemyTurn levelPass sessionCrag = Some (Inr s') \<and> units s' = units sessionCrag
         \<and> sessionOk levelPass s' \<and> rosterOnBoard levelPass (units s')
         \<and> keepsOffMountain levelPass (units sessionCrag) (units s')"
    using s' by blast
  have m: "mapSetup levelPass 4 4 = mountain" by (simp add: levelPass_def)
  have u: "units sessionCrag = [squire, brute\<lparr>hp := 7, position := (4, 4), stunned := True\<rparr>]"
    by (simp add: sessionCrag_def)
  show ?thesis using sessionPass_ok sessionPass_bash_crag ok 2 m u by blast
qed

text \<open>
  C3 as stated fails: the bash of \<open>sessionPass\<close> pushes the target against the mountain of
  (4,4) and the target stays in the roster on that mountain cell.
\<close>

theorem C3_unit_rests_on_mountain_counterexample:
  "rosterAtRest levelPass (units sessionPass)
   \<and> (\<exists>s'. handleTileClick levelPass sessionPass (3, 4) = Some (Inr s')
        \<and> brute\<lparr>hp := 7, position := (4, 4), stunned := True\<rparr> \<in> set (units s')
        \<and> mapSetup levelPass 4 4 = mountain
        \<and> \<not> rosterAtRest levelPass (units s'))"
proof -
  let ?b = "brute\<lparr>hp := 7, position := (4, 4), stunned := True\<rparr>"
  let ?s = "\<lparr> units = [squire, ?b], selectedUnitId = None, validMoves = [],
       currentTurn = TurnEnemy, hasMoved = False, validTargets = [],
       selectedAction = ActShieldBash, gameState = playing \<rparr>"
  have m: "mapSetup levelPass 4 4 = mountain" by (simp add: levelPass_def)
  have "\<not> offMountain levelPass ?b" by (simp add: offMountain_def m)
  then have "\<not> rosterAtRest levelPass (units ?s)" by (simp add: rosterAtRest_def)
  moreover have "?b \<in> set (units ?s)" by simp
  ultimately have "handleTileClick levelPass sessionPass (3, 4) = Some (Inr ?s)
        \<and> ?b \<in> set (units ?s) \<and> mapSetup levelPass 4 4 = mountain
        \<and> \<not> rosterAtRest levelPass (units ?s)"
    using sessionPass_bash m by blast
  then have "\<exists>s'. handleTileClick levelPass sessionPass (3, 4) = Some (Inr s')
        \<and> ?b \<in> set (units s') \<and> mapSetup levelPass 4 4 = mountain
        \<and> \<not> rosterAtRest levelPass (units s')"
    by (rule exI)
  then show ?thesis using sessionPass_atRest by blast
qed

text \<open>
  C4 fails on the code: the roster of \<open>sessionStack\<close> has one unit per cell, and the bash
  of the unit on (3,2) knocks the struck unit from (4,2) to (6,2), where \<open>guard3\<close> stands.
  The struck unit's destination is tested for the grid and for water only.
\<close>

theorem C4_bash_stacks_two_units:
  "distinct (map position (units sessionStack))
   \<and> handleTileClick levelPass sessionStack (3, 2) =
     Some (Inr \<lparr> units = [knight, bearer\<lparr>hp := 7, position := (4, 2), stunned := True\<rparr>,
                    guard2\<lparr>hp := 7, position := (6, 2)\<rparr>, guard3],
       selectedUnitId = None, validMoves = [],
       currentTurn = TurnEnemy, hasMoved = False, validTargets = [],
       selectedAction = ActShieldBash, gameState = playing \<rparr>)
   \<and> position (guard2\<lparr>hp := 7, position := (6, 2)\<rparr>) = position guard3"
  by (simp add: handleTileClick_def attackClick_def resolveAttackClick_def tileUnit_def hasPos_def
      returnC_def defaultAction_def sessionStack_def bash_eval bash_demo guard2_def guard3_def)

lemma sessionWon_eq:
  "sessionWon = \<lparr> units = units0 levelSolo, selectedUnitId = None, validMoves = [],
       currentTurn = TurnPlayer, hasMoved = False, validTargets = [],
       selectedAction = ActAttack, gameState = won \<rparr>"
  by (simp add: sessionWon_def checkOutcome_def initialSession_def defaultAction_def levelSolo_def
      Let_def)

lemma sessionWon_select:
  "handleTileClick levelSolo sessionWon (1, 1) =
     Some (Inr \<lparr> units = units0 levelSolo, selectedUnitId = Some ''hero'',
       validMoves = [(2, 1), (0, 1), (1, 2), (1, 0)],
       currentTurn = TurnPlayer, hasMoved = False, validTargets = [],
       selectedAction = ActAttack, gameState = won \<rparr>)"
  by (simp add: sessionWon_eq handleTileClick_def moveOrSelectClick_def selectClick_def tileUnit_def
      returnC_def levelSolo_def bfs_eval demo_simps)

lemma sessionWon_move:
  "handleTileClick levelSolo
     \<lparr> units = units0 levelSolo, selectedUnitId = Some ''hero'',
       validMoves = [(2, 1), (0, 1), (1, 2), (1, 0)],
       currentTurn = TurnPlayer, hasMoved = False, validTargets = [],
       selectedAction = ActAttack, gameState = won \<rparr> (2, 1) =
     Some (Inr \<lparr> units = [\<lparr> uid = ''hero'', position = (2, 1), hp = 1, moveRange = 1,
                     attackRange = 1, damage = 5, team = Player, emoji = SHIELD, stunned = False \<rparr>],
       selectedUnitId = None, validMoves = [],
       currentTurn = TurnEnemy, hasMoved = False, validTargets = [],
       selectedAction = ActAttack, gameState = won \<rparr>)"
  by (simp add: handleTileClick_def moveOrSelectClick_def moveClick_def hasPos_def
      getValidTargets_def returnC_def bindC_def levelSolo_def Let_def)

text \<open>
  A level without an enemy is won when it is loaded, while the turn is the player's:
  \<open>handleTileClick\<close> tests the turn only, so a click on the hero of \<open>levelSolo\<close> selects it
  and a click on (2,1) moves it there. No entry of \<open>LEVELS\<close> is such a level.
\<close>

lemma click_moves_unit_without_enemies:
  "gameState sessionWon = won \<and> currentTurn sessionWon = TurnPlayer
   \<and> map position (units sessionWon) = [(1, 1)]
   \<and> (\<exists>s1 s2. handleTileClick levelSolo sessionWon (1, 1) = Some (Inr s1)
         \<and> gameState s1 = won
         \<and> handleTileClick levelSolo s1 (2, 1) = Some (Inr s2)
         \<and> map position (units s2) = [(2, 1)] \<and> currentTurn s2 = TurnEnemy \<and> gameState s2 = won)"
  by (simp add: sessionWon_select sessionWon_move) (simp add: sessionWon_eq levelSolo_def)

lemma team_cases: "team u \<noteq> Player \<longleftrightarrow> team u = Enemy"
  by (cases "team u") simp_all

lemma checkOutcome_cases:
  "checkOutcome s =
     (if gameState s \<noteq> playing then s
      else if \<not> hasTeam Player (units s) then s\<lparr>gameState := lost\<rparr>
      else if \<not> hasTeam Enemy (units s) then s\<lparr>gameState := won\<rparr> else s)"
  by (auto simp: checkOutcome_def Let_def hasTeam_def find_None_iff filter_empty_conv)

lemma settled_playing:
  assumes "checkOutcome s = s" "gameState s = playing"
  shows "hasTeam Player (units s) \<and> hasTeam Enemy (units s)"
proof -
  have "gameState (checkOutcome s) = playing" using assms by simp
  then show ?thesis using assms(2) by (auto simp: checkOutcome_cases split: if_splits)
qed

lemma sessionInv_initial:
  assumes "hasTeam Enemy (units0 L)" "\<forall>u\<in>set (units0 L). 0 < hp u"
  shows "sessionInv (initialSession L)"
  using assms by (simp add: sessionInv_def initialSession_def idle_def)

lemma sessionInv_checkOutcome:
  assumes "sessionInv s"
  shows "sessionInv (checkOutcome s)"
  using assms unfolding checkOutcome_cases sessionInv_def idle_def by auto

lemma hasTeam_clearStun [simp]:
  "hasTeam t (map (\<lambda>u. u\<lparr>stunned := False\<rparr>) us) = hasTeam t us"
  by (auto simp: hasTeam_def)

lemma sessionInv_clearStun:
  assumes "sessionInv s"
  shows "sessionInv (clearStun s)"
  using assms unfolding clearStun_def sessionInv_def idle_def by auto

lemma idle_eq:
  assumes "idle s"
  shows "s\<lparr>selectedUnitId := None, validMoves := []\<rparr> = s"
  using assms by (simp add: idle_def)

lemma selectClick_idle:
  assumes i: "idle s" and np: "\<not> hasTeam Player (units s)"
  shows "selectClick L s p = Some (Inr s)"
proof (cases "tileUnit s p")
  case None
  then show ?thesis using i idle_eq [OF i] by (simp add: selectClick_def returnC_def idle_def)
next
  case (Some tu)
  then have "tu \<in> set (units s)" by (auto dest: tileUnit_mem)
  then have "team tu \<noteq> Player" using np by (auto simp: hasTeam_def)
  then show ?thesis
    using Some i idle_eq [OF i] by (simp add: selectClick_def returnC_def idle_def)
qed

lemma click_after_outcome:
  assumes inv: "sessionInv s" and t: "gameState s \<noteq> playing"
  shows "handleTileClick L s p = Some (Inr s)"
proof (cases "currentTurn s = TurnPlayer")
  case False
  then show ?thesis by (simp add: handleTileClick_def returnC_def)
next
  case True
  then have np: "\<not> hasTeam Player (units s)" using inv t by (simp add: sessionInv_def)
  then have i: "idle s" using inv by (simp add: sessionInv_def)
  have "moveOrSelectClick L s p = selectClick L s p"
    using i by (simp add: moveOrSelectClick_def idle_def)
  then show ?thesis
    using True i selectClick_idle [OF i np]
    by (simp add: handleTileClick_def idle_def)
qed

lemma executeShieldBash_alive:
  "u \<in> set (fst (executeShieldBash L attacker target prev)) \<Longrightarrow> 0 < hp u"
  by (auto simp: executeShieldBash_def Let_def set_alive split: option.splits if_splits)

lemma executeAttack_alive:
  "u \<in> set (executeAttack attacker target prev) \<Longrightarrow> 0 < hp u"
  by (auto simp: executeAttack_def Let_def)

lemma sessionInv_attackClick:
  assumes inv: "sessionInv s" and hm: "hasMoved s"
  shows "sessionInv (attackClick L s su p)"
proof -
  have vm: "validMoves s = []" using inv hm by (simp add: sessionInv_def)
  have "sessionInv (resolveAttackClick L s su tu)" for tu
    using vm executeShieldBash_alive [of _ L su tu "units s"] executeAttack_alive [of _ su tu "units s"]
    by (auto simp: resolveAttackClick_def Let_def sessionInv_def idle_def)
  then show ?thesis using inv by (simp add: attackClick_def Let_def split: option.splits)
qed

lemma hasTeam_moved [simp]:
  "hasTeam t (map (\<lambda>u. if uid u = i then u\<lparr>position := p\<rparr> else u) us) = hasTeam t us"
  by (induction us) (auto simp: hasTeam_def)

lemma sessionInv_moveClick:
  assumes inv: "sessionInv s" and nm: "\<not> hasMoved s" and turn: "currentTurn s = TurnPlayer"
    and g: "gameState s = playing" and pl: "hasTeam Player (units s)"
    and r: "moveClick L s i p = Some (Inr s')"
  shows "sessionInv s'"
proof -
  let ?new = "map (\<lambda>u. if uid u = i then u\<lparr>position := p\<rparr> else u) (units s)"
  have hp: "\<forall>u\<in>set ?new. 0 < hp u" using inv by (auto simp: sessionInv_def)
  have a: "sessionInv (s\<lparr>units := ?new, validMoves := [], selectedUnitId := None,
      currentTurn := TurnEnemy\<rparr>)"
    using hp nm by (simp add: sessionInv_def idle_def)
  have b: "sessionInv (s\<lparr>units := ?new, validMoves := [], hasMoved := True, validTargets := ts\<rparr>)" for ts
    using hp inv turn pl g by (simp add: sessionInv_def idle_def)
  from r a b show ?thesis
    by (auto simp: moveClick_def Let_def bindC_def returnC_def
        split: option.splits sum.splits if_splits)
qed

lemma sessionInv_selectClick:
  assumes inv: "sessionInv s" and turn: "currentTurn s = TurnPlayer"
    and g: "gameState s = playing" and pl: "hasTeam Player (units s)"
    and r: "selectClick L s p = Some (Inr s')"
  shows "sessionInv s'"
proof -
  have a: "sessionInv (s\<lparr>selectedUnitId := i, validMoves := ms\<rparr>)" if "\<not> hasMoved s" for i ms
    using inv turn g pl that by (simp add: sessionInv_def idle_def)
  from r a inv show ?thesis
    by (auto simp: selectClick_def returnC_def split: option.splits sum.splits if_splits)
qed

lemma sessionInv_click:
  assumes inv: "sessionInv s" and st: "checkOutcome s = s"
    and r: "handleTileClick L s p = Some (Inr s')"
  shows "sessionInv s'"
proof (cases "gameState s = playing \<and> currentTurn s = TurnPlayer")
  case False
  have "handleTileClick L s p = Some (Inr s)"
  proof (cases "gameState s = playing")
    case True
    with False show ?thesis by (simp add: handleTileClick_def returnC_def)
  next
    case False
    then show ?thesis by (rule click_after_outcome [OF inv])
  qed
  then show ?thesis using r inv by simp
next
  case True
  then have g: "gameState s = playing" and turn: "currentTurn s = TurnPlayer" by simp_all
  have pl: "hasTeam Player (units s)" using settled_playing [OF st g] by simp
  have mos: "sessionInv t" if t: "moveOrSelectClick L s p = Some (Inr t)" for t
  proof (cases "\<exists>i. selectedUnitId s = Some i \<and> i \<noteq> [] \<and> \<not> hasMoved s \<and> hasPos (validMoves s) p")
    case True
    then obtain i where i: "selectedUnitId s = Some i" "hasPos (validMoves s) p" "i \<noteq> []" "\<not> hasMoved s"
      by blast
    then have "moveClick L s i p = Some (Inr t)" using t by (simp add: moveOrSelectClick_def)
    then show ?thesis by (rule sessionInv_moveClick [OF inv i(4) turn g pl])
  next
    case False
    have "moveOrSelectClick L s p = selectClick L s p"
      using False by (auto simp: moveOrSelectClick_def split: option.splits)
    then have "selectClick L s p = Some (Inr t)" using t by simp
    then show ?thesis by (rule sessionInv_selectClick [OF inv turn g pl])
  qed
  show ?thesis
  proof (cases "case selectedUnitId s of None \<Rightarrow> None | Some i \<Rightarrow> find (\<lambda>u. uid u = i) (units s)")
    case None
    then have "moveOrSelectClick L s p = Some (Inr s')"
      using turn r by (simp add: handleTileClick_def Let_def)
    then show ?thesis by (rule mos)
  next
    case (Some su)
    show ?thesis
    proof (cases "hasMoved s")
      case hm: True
      then have "s' = attackClick L s su p"
        using turn Some r by (simp add: handleTileClick_def Let_def returnC_def)
      then show ?thesis using sessionInv_attackClick [OF inv hm] by simp
    next
      case False
      then have "moveOrSelectClick L s p = Some (Inr s')"
        using turn Some r by (simp add: handleTileClick_def Let_def)
      then show ?thesis by (rule mos)
    qed
  qed
qed

lemma enemyMove_maps:
  assumes "enemyMove L stateUnits player newUnits enemy = Some (Inr new')"
  shows "map team new' = map team newUnits \<and> map hp new' = map hp newUnits"
proof (cases "new' = newUnits")
  case True
  then show ?thesis by simp
next
  case False
  then obtain moves where "getValidMoves L stateUnits enemy = Inr moves"
    and "new' = map (\<lambda>u. if uid u = uid enemy
              then u\<lparr>position := chooseMove newUnits enemy player moves\<rparr> else u) newUnits"
    using assms
    by (auto simp: enemyMove_def Let_def bindC_def returnC_def
        split: if_splits option.splits sum.splits)
  then show ?thesis by (simp add: comp_def)
qed

lemma movePass_maps:
  assumes "foldC (enemyMove L us player) us order = Some (Inr moved)"
  shows "map team moved = map team us \<and> map hp moved = map hp us"
proof (rule foldC_returns_inv [where P = "\<lambda>nu. map team nu = map team us \<and> map hp nu = map hp us",
      OF _ _ assms])
  show "map team us = map team us \<and> map hp us = map hp us" by simp
next
  fix nu e new'
  assume "map team nu = map team us \<and> map hp nu = map hp us"
    "enemyMove L us player nu e = Some (Inr new')"
  then show "map team new' = map team us \<and> map hp new' = map hp us"
    using enemyMove_maps by metis
qed

lemma enemy_survives:
  assumes tm: "map team moved = map team us" and hm: "map hp moved = map hp us"
    and e: "e \<in> set us" "team e = Enemy" "0 < hp e"
  shows "hasTeam Enemy (filter (\<lambda>u. hp u > 0)
           (map (\<lambda>u. if team u = Player then u\<lparr>hp := h\<rparr> else u) moved))"
proof -
  from e(1) obtain i where i: "i < length us" "us ! i = e" by (auto simp: in_set_conv_nth)
  have len: "length moved = length us" using tm by (rule map_eq_imp_length_eq)
  have "map team moved ! i = map team us ! i" "map hp moved ! i = map hp us ! i"
    using tm hm by simp_all
  then have m: "team (moved ! i) = Enemy" "0 < hp (moved ! i)"
    using i len e(2,3) by simp_all
  have "moved ! i \<in> set moved" using i(1) len by simp
  then have "moved ! i \<in> set (filter (\<lambda>u. hp u > 0)
           (map (\<lambda>u. if team u = Player then u\<lparr>hp := h\<rparr> else u) moved))"
    using m by (auto intro!: image_eqI [of _ _ "moved ! i"])
  then show ?thesis using m(1) unfolding hasTeam_def by blast
qed

lemma enemyPhase_returns:
  assumes pl: "find (\<lambda>u. team u = Player) (units s) = Some pl"
    and en: "filter (\<lambda>u. team u = Enemy) (units s) \<noteq> []"
    and r: "enemyPhase L s = Some (Inr s')"
  shows "\<exists>moved h. map team moved = map team (units s) \<and> map hp moved = map hp (units s)
       \<and> s' = s\<lparr>units := filter (\<lambda>u. hp u > 0)
                  (map (\<lambda>u. if team u = Player then u\<lparr>hp := h\<rparr> else u) moved),
                currentTurn := TurnPlayer\<rparr>"
proof -
  let ?order = "sort_key (\<lambda>e. manhattan (position e) (position pl))
                    (filter (\<lambda>u. team u = Enemy) (units s))"
  from r [unfolded enemyPhase_unfold [OF pl en]]
  obtain moved where mv: "foldC (enemyMove L (units s) pl) (units s) ?order = Some (Inr moved)"
    and r2: "bindC (foldC (enemyAttack L pl moved) (hp pl) ?order) (\<lambda>playerHp.
          returnC (s\<lparr>units := filter (\<lambda>u. hp u > 0)
                         (map (\<lambda>u. if team u = Player then u\<lparr>hp := playerHp\<rparr> else u) moved),
                     currentTurn := TurnPlayer\<rparr>)) = Some (Inr s')"
    by (auto simp: bindC_def split: option.splits sum.splits)
  from r2 obtain h where "s' = s\<lparr>units := filter (\<lambda>u. hp u > 0)
                         (map (\<lambda>u. if team u = Player then u\<lparr>hp := h\<rparr> else u) moved),
                     currentTurn := TurnPlayer\<rparr>"
    by (auto simp: bindC_def returnC_def split: option.splits sum.splits)
  then show ?thesis using movePass_maps [OF mv] by blast
qed

lemma sessionInv_enemyTurn:
  assumes inv: "sessionInv s" and st: "checkOutcome s = s"
    and r: "enemyTurn L s = Some (Inr s')"
  shows "sessionInv s'"
proof (cases "currentTurn s = TurnEnemy \<and> gameState s = playing")
  case False
  then have "s' = s" using r by (auto simp: enemyTurn_def returnC_def)
  then show ?thesis using inv by simp
next
  case True
  then have ph: "enemyPhase L s = Some (Inr s')" using r by (simp add: enemyTurn_def)
  from settled_playing [OF st] True have pe: "hasTeam Player (units s)" "hasTeam Enemy (units s)"
    by simp_all
  then obtain pl where pl: "find (\<lambda>u. team u = Player) (units s) = Some pl"
    by (cases "find (\<lambda>u. team u = Player) (units s)") (auto simp: find_None_iff hasTeam_def)
  from pe(2) obtain e where e: "e \<in> set (units s)" "team e = Enemy" by (auto simp: hasTeam_def)
  then have en: "filter (\<lambda>u. team u = Enemy) (units s) \<noteq> []" by (auto simp: filter_empty_conv)
  have he: "0 < hp e" using inv e(1) by (simp add: sessionInv_def)
  from enemyPhase_returns [OF pl en ph] obtain moved h where
    m: "map team moved = map team (units s)" "map hp moved = map hp (units s)"
    and s': "s' = s\<lparr>units := filter (\<lambda>u. hp u > 0)
                  (map (\<lambda>u. if team u = Player then u\<lparr>hp := h\<rparr> else u) moved),
                currentTurn := TurnPlayer\<rparr>"
    by blast
  have i: "idle s" using inv True by (simp add: sessionInv_def)
  show ?thesis
    unfolding s' using enemy_survives [OF m e he, of h] i True
    by (simp add: sessionInv_def idle_def)
qed

lemma reachable_sessionInv:
  assumes "hasTeam Enemy (units0 L)" "\<forall>u\<in>set (units0 L). 0 < hp u" "reachable L s"
  shows "sessionInv s"
  using assms(3)
proof induction
  case loaded
  show ?case using assms(1,2) by (rule sessionInv_initial)
next
  case (outcome s)
  then show ?case by (simp add: sessionInv_checkOutcome)
next
  case (stun s)
  then show ?case by (simp add: sessionInv_clearStun)
next
  case (click s p s')
  then show ?case using sessionInv_click by blast
next
  case (enemy s s')
  then show ?case using sessionInv_enemyTurn by blast
next
  case (action s a)
  then show ?case by (simp add: sessionInv_def idle_def)
qed

text \<open>
  C9: on the board of a level whose roster holds an enemy and only units with HP left, once
  the outcome of a reachable session is \<open>won\<close> or \<open>lost\<close>, a click on any tile and the trigger
  of the enemy phase return the session as it is, and so do the two effects: roster, turn
  and outcome are unchanged. After a win the turn is the enemy's, which \<open>handleTileClick\<close>
  tests; after a loss no player unit is left and nothing is selected; the enemy effect tests
  the outcome.
\<close>

theorem C9_commands_after_outcome_are_noops:
  assumes "hasTeam Enemy (units0 L)" and "\<forall>u\<in>set (units0 L). 0 < hp u"
    and "reachable L s" and "gameState s \<noteq> playing"
  shows "handleTileClick L s p = Some (Inr s) \<and> enemyTurn L s = Some (Inr s)
       \<and> checkOutcome s = s \<and> clearStun s = s"
proof -
  have "sessionInv s" using assms(1-3) by (rule reachable_sessionInv)
  then have "handleTileClick L s p = Some (Inr s)" using assms(4) by (rule click_after_outcome)
  moreover have "enemyTurn L s = Some (Inr s)" "checkOutcome s = s" "clearStun s = s"
    using assms(4) by (simp_all add: enemyTurn_def checkOutcome_def clearStun_def returnC_def)
  ultimately show ?thesis by simp
qed

lemmas skirmish_simps = levelSkirmish_def skirmishHero_def sessionSelected_def sessionMoved_def
  sessionStruck_def sessionVictory_def initialSession_def defaultAction_def ARCHER_def SHIELD_def

lemma skirmish_select:
  "handleTileClick levelSkirmish (initialSession levelSkirmish) (0, 1) = Some (Inr sessionSelected)"
  by (simp add: skirmish_simps handleTileClick_def moveOrSelectClick_def selectClick_def tileUnit_def
      returnC_def bfs_eval inBounds_def terrainAt_def neighbours_def isBlocked_def)

lemma skirmish_move:
  "handleTileClick levelSkirmish sessionSelected (1, 1) = Some (Inr sessionMoved)"
  by (simp add: skirmish_simps handleTileClick_def moveOrSelectClick_def moveClick_def hasPos_def
      getValidTargets_def manhattan_def hasLineOfSight_def losLoop.simps terrainAt_def
      inBounds_def returnC_def bindC_def Let_def)

lemma skirmish_attack:
  "handleTileClick levelSkirmish sessionMoved (2, 1) = Some (Inr sessionStruck)"
  by (simp add: skirmish_simps handleTileClick_def attackClick_def resolveAttackClick_def
      executeAttack_def tileUnit_def hasPos_def returnC_def Let_def)

lemma skirmish_settled:
  "checkOutcome (initialSession levelSkirmish) = initialSession levelSkirmish"
  "checkOutcome sessionSelected = sessionSelected"
  "checkOutcome sessionMoved = sessionMoved"
  "checkOutcome sessionStruck = sessionVictory"
  by (simp_all add: skirmish_simps checkOutcome_def Let_def)

lemma skirmish_reachable: "reachable levelSkirmish sessionVictory"
proof -
  have "reachable levelSkirmish (initialSession levelSkirmish)" by (rule reachable.loaded)
  then have "reachable levelSkirmish sessionSelected"
    using skirmish_settled(1) skirmish_select by (rule reachable.click)
  then have "reachable levelSkirmish sessionMoved"
    using skirmish_settled(2) skirmish_move by (rule reachable.click)
  then have "reachable levelSkirmish sessionStruck"
    using skirmish_settled(3) skirmish_attack by (rule reachable.click)
  then have "reachable levelSkirmish (checkOutcome sessionStruck)" by (rule reachable.outcome)
  then show ?thesis by (simp add: skirmish_settled)
qed

theorem C9_frozen_after_win_witness:
  "map team (units0 levelSkirmish) = [Player, Enemy] \<and> map hp (units0 levelSkirmish) = [1, 4]
   \<and> reachable levelSkirmish sessionVictory \<and> gameState sessionVictory = won
   \<and> units sessionVictory = [skirmishHero] \<and> currentTurn sessionVictory = TurnEnemy
   \<and> handleTileClick levelSkirmish sessionVictory (1, 1) = Some (Inr sessionVictory)
   \<and> enemyTurn levelSkirmish sessionVictory = Some (Inr sessionVictory)"
proof -
  have e: "hasTeam Enemy (units0 levelSkirmish)" by (simp add: hasTeam_def levelSkirmish_def)
  have h: "\<forall>u\<in>set (units0 levelSkirmish). 0 < hp u" by (simp add: levelSkirmish_def)
  have g: "gameState sessionVictory \<noteq> playing" by (simp add: sessionVictory_def)
  note c = C9_commands_after_outcome_are_noops [OF e h skirmish_reachable g, of "(1, 1)"]
  have v: "map team (units0 levelSkirmish) = [Player, Enemy]" "map hp (units0 levelSkirmish) = [1, 4]"
    "gameState sessionVictory = won" "units sessionVictory = [skirmishHero]"
    "currentTurn sessionVictory = TurnEnemy"
    by (simp_all add: levelSkirmish_def sessionVictory_def sessionStruck_def)
  show ?thesis using c v skirmish_reachable by blast
qed

text \<open>
  Every entry of \<open>LEVELS\<close> has a player unit and an enemy, units with HP left, one unit per
  id and per cell, and a roster at rest; so its sessions freeze once the outcome is decided.
\<close>

lemma LEVELS_playable:
  assumes "L \<in> set LEVELS"
  shows "hasTeam Enemy (units0 L) \<and> hasTeam Player (units0 L) \<and> (\<forall>u\<in>set (units0 L). 0 < hp u)
       \<and> distinct (map uid (units0 L)) \<and> distinct (map position (units0 L))"
  using assms
  by (auto simp: LEVELS_def forestAmbush_def mountainPass_def crossfire_def hasTeam_def)

lemma LEVELS_start_ok:
  assumes "L \<in> set LEVELS"
  shows "sessionOk L (initialSession L) \<and> rosterAtRest L (units0 L)"
  using assms
  by (auto simp: LEVELS_def forestAmbush_def mountainPass_def crossfire_def sessionOk_def
      initialSession_def rosterOnBoard_def rosterAtRest_def onBoard_def offMountain_def inBounds_def)

lemma shipped_levels_freeze:
  assumes "L \<in> set LEVELS" "reachable L s" "gameState s \<noteq> playing"
  shows "handleTileClick L s p = Some (Inr s) \<and> enemyTurn L s = Some (Inr s)"
proof -
  from LEVELS_playable [OF assms(1)] have "hasTeam Enemy (units0 L)" "\<forall>u\<in>set (units0 L). 0 < hp u"
    by simp_all
  then have "sessionInv s" using assms(2) by (rule reachable_sessionInv)
  then have "handleTileClick L s p = Some (Inr s)" using assms(3) by (rule click_after_outcome)
  moreover have "enemyTurn L s = Some (Inr s)"
    using assms(3) by (simp add: enemyTurn_def returnC_def)
  ultimately show ?thesis by simp
qed

text \<open>
  C10: in an enemy phase with a player unit \<open>pl\<close> and at least one enemy, on a roster inside
  the grid. The order \<open>order\<close> is the enemies sorted ascending by their Manhattan distance to
  \<open>pl\<close> in the roster the phase starts from. The movement pass over \<open>order\<close> returns a
  roster \<open>moved\<close> with the HP and ids of the old one. The attack pass runs over the same
  \<open>order\<close> on \<open>moved\<close>: the player's HP drops by the sum of the damage of the non-stunned
  enemies whose position in \<open>moved\<close> is within range with line of sight, and only then are
  the units without HP removed.
\<close>

theorem C10_enemy_phase_moves_then_attacks:
  fixes L s pl
  defines "enemies \<equiv> filter (\<lambda>u. team u = Enemy) (units s)"
  defines "order \<equiv> sort_key (\<lambda>e. manhattan (position e) (position pl)) enemies"
  assumes r: "rosterOnBoard L (units s)"
    and pl: "find (\<lambda>u. team u = Player) (units s) = Some pl"
    and en: "enemies \<noteq> []"
  shows "sorted (map (\<lambda>e. manhattan (position e) (position pl)) order)
       \<and> mset order = mset enemies
       \<and> (\<exists>moved. foldC (enemyMove L (units s) pl) (units s) order = Some (Inr moved)
            \<and> map hp moved = map hp (units s) \<and> map uid moved = map uid (units s)
            \<and> enemyPhase L s = Some (Inr (s\<lparr>units := filter (\<lambda>u. hp u > 0)
                 (map (\<lambda>u. if team u = Player
                            then u\<lparr>hp := hp pl - sum_list (map damage
                                   (filter (canHit L pl) (updatedOf moved order)))\<rparr>
                            else u) moved),
               currentTurn := TurnPlayer\<rparr>)))"
proof -
  have 1: "sorted (map (\<lambda>e. manhattan (position e) (position pl)) order)"
    unfolding order_def by (rule sorted_sort_key)
  have 2: "mset order = mset enemies"
    unfolding order_def by simp
  from enemyPhase_formula [OF r pl en [unfolded enemies_def]]
  have 3: "\<exists>moved. foldC (enemyMove L (units s) pl) (units s) order = Some (Inr moved)
            \<and> map hp moved = map hp (units s) \<and> map uid moved = map uid (units s)
            \<and> enemyPhase L s = Some (Inr (s\<lparr>units := filter (\<lambda>u. hp u > 0)
                 (map (\<lambda>u. if team u = Player
                            then u\<lparr>hp := hp pl - sum_list (map damage
                                   (filter (canHit L pl) (updatedOf moved order)))\<rparr>
                            else u) moved),
               currentTurn := TurnPlayer\<rparr>))"
    unfolding order_def enemies_def by blast
  show ?thesis using 1 2 3 by blast
qed

lemmas duel_simps = levelDuel_def duelHero_def duelArcher_def duelGuard_def ARCHER_def SHIELD_def
  manhattan_def

lemmas los_eval = hasLineOfSight_def losLoop.simps terrainAt_def inBounds_def

lemma duel_order:
  "sort_key (\<lambda>e. manhattan (position e) (position duelHero))
     (filter (\<lambda>u. team u = Enemy) (units sessionDuel)) = [duelGuard, duelArcher]"
  by (simp add: sessionDuel_def duel_simps)

lemma duel_archer_moves:
  "getValidMoves levelDuel [duelHero, duelArcher, duelGuard] duelArcher
     = Inr [(3, 4), (4, 3), (2, 4), (3, 3), (4, 2)]"
  by (simp add: bfs_eval duel_simps neighbours_def isBlocked_def terrainAt_def inBounds_def)

lemma duel_guard_stays:
  "enemyMove levelDuel [duelHero, duelArcher, duelGuard] duelHero
     [duelHero, duelArcher, duelGuard] duelGuard = Some (Inr [duelHero, duelArcher, duelGuard])"
  by (simp add: enemyMove_def Let_def bindC_def returnC_def los_eval duel_simps)

lemma duel_archer_choice:
  "chooseMove [duelHero, duelArcher, duelGuard] duelArcher duelHero
     [(3, 4), (4, 3), (2, 4), (3, 3), (4, 2)] = (2, 4)"
  by (simp add: chooseMove_def Let_def duel_simps)

lemma duel_archer_advances:
  "enemyMove levelDuel [duelHero, duelArcher, duelGuard] duelHero
     [duelHero, duelArcher, duelGuard] duelArcher
     = Some (Inr [duelHero, duelArcher\<lparr>position := (2, 4)\<rparr>, duelGuard])"
proof -
  have far: "manhattan (position duelArcher) (position duelHero) > attackRange duelArcher"
    "\<not> stunned duelArcher"
    by (simp_all add: duel_simps)
  have ids: "uid duelHero \<noteq> uid duelArcher" "uid duelGuard \<noteq> uid duelArcher"
    by (simp_all add: duel_simps)
  show ?thesis
    using far ids
    by (simp add: enemyMove_def Let_def bindC_def returnC_def duel_archer_moves duel_archer_choice)
qed

lemma duel_moved:
  "foldC (enemyMove levelDuel (units sessionDuel) duelHero) (units sessionDuel)
     [duelGuard, duelArcher]
     = Some (Inr [duelHero, duelArcher\<lparr>position := (2, 4)\<rparr>, duelGuard])"
  by (simp add: sessionDuel_def bindC_def returnC_def duel_guard_stays duel_archer_advances)

lemma duel_hits:
  "canHit levelDuel duelHero duelGuard" "canHit levelDuel duelHero (duelArcher\<lparr>position := (2, 4)\<rparr>)"
  by (simp_all add: canHit_def los_eval duel_simps)

lemma duel_updated:
  "updatedOf [duelHero, duelArcher\<lparr>position := (2, 4)\<rparr>, duelGuard] [duelGuard, duelArcher]
     = [duelGuard, duelArcher\<lparr>position := (2, 4)\<rparr>]"
  by (simp add: updatedOf_def map_filter_simps duel_simps)

theorem C10_enemy_phase_witness:
  "rosterOnBoard levelDuel (units sessionDuel)
   \<and> find (\<lambda>u. team u = Player) (units sessionDuel) = Some duelHero
   \<and> filter (\<lambda>u. team u = Enemy) (units sessionDuel) = [duelArcher, duelGuard]
   \<and> sort_key (\<lambda>e. manhattan (position e) (position duelHero))
        (filter (\<lambda>u. team u = Enemy) (units sessionDuel)) = [duelGuard, duelArcher]
   \<and> enemyPhase levelDuel sessionDuel =
       Some (Inr (sessionDuel\<lparr>units := [duelHero\<lparr>hp := 4\<rparr>, duelArcher\<lparr>position := (2, 4)\<rparr>, duelGuard],
                    currentTurn := TurnPlayer\<rparr>))"
proof -
  have r: "rosterOnBoard levelDuel (units sessionDuel)"
    by (simp add: rosterOnBoard_def onBoard_def inBounds_def sessionDuel_def duel_simps)
  have pl: "find (\<lambda>u. team u = Player) (units sessionDuel) = Some duelHero"
    by (simp add: sessionDuel_def duel_simps)
  have en: "filter (\<lambda>u. team u = Enemy) (units sessionDuel) = [duelArcher, duelGuard]"
    by (simp add: sessionDuel_def duel_simps)
  have ne: "filter (\<lambda>u. team u = Enemy) (units sessionDuel) \<noteq> []" by (simp add: en)
  from C10_enemy_phase_moves_then_attacks [OF r pl ne, unfolded duel_order]
  obtain moved where m: "foldC (enemyMove levelDuel (units sessionDuel) duelHero) (units sessionDuel)
        [duelGuard, duelArcher] = Some (Inr moved)"
    and e: "enemyPhase levelDuel sessionDuel = Some (Inr (sessionDuel\<lparr>units := filter (\<lambda>u. hp u > 0)
                 (map (\<lambda>u. if team u = Player
                            then u\<lparr>hp := hp duelHero - sum_list (map damage
                                   (filter (canHit levelDuel duelHero)
                                      (updatedOf moved [duelGuard, duelArcher])))\<rparr>
                            else u) moved),
               currentTurn := TurnPlayer\<rparr>))"
    by blast
  have mv: "moved = [duelHero, duelArcher\<lparr>position := (2, 4)\<rparr>, duelGuard]"
    using m unfolding duel_moved by simp
  have vals: "hp duelHero = 9" "damage duelGuard = 1" "damage duelArcher = 4"
    "team duelHero = Player" "team duelArcher = Enemy" "team duelGuard = Enemy"
    "hp duelArcher = 4" "hp duelGuard = 8"
    by (simp_all add: duel_simps)
  have "enemyPhase levelDuel sessionDuel =
       Some (Inr (sessionDuel\<lparr>units := [duelHero\<lparr>hp := 4\<rparr>, duelArcher\<lparr>position := (2, 4)\<rparr>, duelGuard],
                    currentTurn := TurnPlayer\<rparr>))"
    unfolding e mv duel_updated by (simp add: duel_hits vals)
  then show ?thesis using r pl en duel_order by blast
qed

text \<open>
  The effects test the outcome: once it is \<open>won\<close> or \<open>lost\<close> the enemy turn, the stun
  clearing and the outcome check leave the session as it is, and so does a tile click while
  the turn is the enemy's.
\<close>

theorem terminal_outcome_guards:
  assumes "gameState s \<noteq> playing"
  shows "enemyTurn L s = Some (Inr s) \<and> clearStun s = s \<and> checkOutcome s = s
       \<and> (currentTurn s \<noteq> TurnPlayer \<longrightarrow> handleTileClick L s p = Some (Inr s))"
  using assms
  by (simp add: enemyTurn_def clearStun_def checkOutcome_def handleTileClick_def returnC_def)

theorem terminal_outcome_guards_witness:
  "gameState sessionWon \<noteq> playing
   \<and> enemyTurn levelSolo sessionWon = Some (Inr sessionWon)
   \<and> clearStun sessionWon = sessionWon \<and> checkOutcome sessionWon = sessionWon"
proof -
  have g: "gameState sessionWon \<noteq> playing" by (simp add: sessionWon_eq)
  from terminal_outcome_guards [OF g, of levelSolo] g show ?thesis by blast
qed

end
